theory Spec2Isabelle
  imports Complex_Main "HOL-Library.Log_Nat"
begin

section \<open>Python floats\<close>

text \<open>
  A Python \<open>float\<close> is an IEEE 754 binary64 number. A finite double is modelled by the
  rational number it denotes; every arithmetic operation is the exact operation on
  rationals followed by \<open>fl\<close>, rounding to the nearest double with ties going to the even
  significand. The scores of this program stay far below the overflow threshold, so
  infinities and NaN are not part of the model.
\<close>

definition pow2 :: "int \<Rightarrow> rat" where
  "pow2 e = (if 0 \<le> e then 2 ^ nat e else 1 / 2 ^ nat (- e))"

text \<open>The exponent \<open>e\<close> with \<open>2 ^ e \<le> a < 2 ^ (e + 1)\<close>, for a positive rational.\<close>

definition binade :: "rat \<Rightarrow> int" where
  "binade a = (let (p, q) = quotient_of a; e0 = bitlen p - bitlen q
               in if pow2 e0 \<le> a then e0 else e0 - 1)"

definition round_half_even :: "rat \<Rightarrow> int" where
  "round_half_even y =
     (let f = \<lfloor>y\<rfloor>; d = y - of_int f
      in if d < 1 / 2 then f else if 1 / 2 < d then f + 1
         else if even f then f else f + 1)"

text \<open>53 significant bits; below \<open>2 ^ - 1022\<close> the spacing stays \<open>2 ^ - 1074\<close> (subnormals).\<close>

definition fl :: "rat \<Rightarrow> rat" where
  "fl x = (if x = 0 then 0
           else let a = \<bar>x\<bar>; e = max (binade a - 52) (- 1074)
                in sgn x * of_int (round_half_even (a / pow2 e)) * pow2 e)"

definition fadd :: "rat \<Rightarrow> rat \<Rightarrow> rat" where
  "fadd x y = fl (x + y)"

definition fmul :: "rat \<Rightarrow> rat \<Rightarrow> rat" where
  "fmul x y = fl (x * y)"

text \<open>\<open>a / b\<close> on Python integers is the correctly rounded quotient (\<open>b\<close> is not zero).\<close>

definition truediv :: "int \<Rightarrow> int \<Rightarrow> rat" where
  "truediv a b = fl (of_int a / of_int b)"

text \<open>\<open>int(x)\<close> truncates towards zero.\<close>

definition py_int :: "rat \<Rightarrow> int" where
  "py_int x = (if 0 \<le> x then \<lfloor>x\<rfloor> else \<lceil>x\<rceil>)"

text \<open>
  \<open>round(x, 2)\<close> rounds the exact value of \<open>x\<close> to two decimals, ties to even, and
  returns the double nearest to that decimal.
\<close>

definition py_round2 :: "rat \<Rightarrow> rat" where
  "py_round2 x = fl (of_int (round_half_even (x * 100)) / 100)"

section \<open>Python strings\<close>

text \<open>
  A \<open>str\<close> is modelled as a list of 8-bit characters, each standing for the code point
  of the same number (ASCII and Latin-1). On these, \<open>str.lower\<close> moves \<open>A\<close>-\<open>Z\<close> and
  the accented capitals 192-214 and 216-222 up by 32 and leaves the rest alone.
\<close>

definition lower_char :: "char \<Rightarrow> char" where
  "lower_char c =
     (let n = (of_char c :: nat)
      in if (65 \<le> n \<and> n \<le> 90) \<or> (192 \<le> n \<and> n \<le> 214) \<or> (216 \<le> n \<and> n \<le> 222)
         then char_of (n + 32) else c)"

definition lower :: "string \<Rightarrow> string" where
  "lower s = map lower_char s"

fun startswith :: "string \<Rightarrow> string \<Rightarrow> bool" where
  "startswith s [] = True"
| "startswith [] (p # ps) = False"
| "startswith (c # cs) (p # ps) = (c = p \<and> startswith cs ps)"

text \<open>\<open>contains k s\<close> is Python's \<open>k in s\<close> on strings.\<close>

fun contains :: "string \<Rightarrow> string \<Rightarrow> bool" where
  "contains k [] = (k = [])"
| "contains k (c # cs) = (startswith (c # cs) k \<or> contains k cs)"

definition digit_char :: "nat \<Rightarrow> char" where
  "digit_char d = char_of (48 + d)"

text \<open>The decimal numeral an f-string prints for a non-negative integer.\<close>

function str_nat :: "nat \<Rightarrow> string" where
  "str_nat n = (if n < 10 then [digit_char n] else str_nat (n div 10) @ [digit_char (n mod 10)])"
  by pat_completeness auto
termination
  by (relation "measure (\<lambda>n. n)") auto

definition is_digit :: "char \<Rightarrow> bool" where
  "is_digit c = (let n = (of_char c :: nat) in 48 \<le> n \<and> n \<le> 57)"

text \<open>The class \<open>\s\<close> of the \<open>re\<close> module, on code points below 256.\<close>

definition is_space :: "char \<Rightarrow> bool" where
  "is_space c = ((of_char c :: nat) \<in> {9, 10, 11, 12, 13, 28, 29, 30, 31, 32, 133, 160})"

section \<open>The outside world\<close>

text \<open>
  \<open>tldextract.extract\<close> and \<open>requests.get\<close> are libraries, and the second one talks to
  the network. They are parameters of the model. Of the result of \<open>tldextract.extract\<close>
  the program reads the fields \<open>domain\<close> and \<open>registered_domain\<close>. A request either
  raises or returns a response, of which the program reads the status code and the
  length of the redirect history. The network may answer the same request differently
  at different times, so \<open>requests_get\<close> also takes the number of requests the current
  analysis has made before. \<open>set_iteration\<close> is the order in which \<open>list(set(xs))\<close>
  enumerates the elements of \<open>xs\<close>, which Python leaves open.
\<close>

record tld_ext =
  domain :: string
  registered_domain :: string

datatype http_result = Raised | Response (status_code: int) (history_len: nat)

record env =
  tld_extract :: "string \<Rightarrow> tld_ext"
  requests_get :: "nat \<Rightarrow> string \<Rightarrow> http_result"
  set_iteration :: "string list \<Rightarrow> string list"

definition py_set_order :: "(string list \<Rightarrow> string list) \<Rightarrow> bool" where
  "py_set_order f = (\<forall>xs. distinct (f xs) \<and> set (f xs) = set xs)"

section \<open>Analysis logic\<close>

definition SUSPICIOUS_KEYWORDS :: "string list" where
  "SUSPICIOUS_KEYWORDS =
     [''urgent'', ''verify'', ''verify your'', ''login'', ''password'', ''update'', ''confirm'',
      ''bank'', ''account'', ''click'', ''suspend'', ''limited'', ''secure'', ''authentication'']"

definition POPULAR_BRANDS :: "string list" where
  "POPULAR_BRANDS =
     [''google'', ''microsoft'', ''amazon'', ''paypal'', ''apple'', ''facebook'', ''aws'', ''netflix'']"

text \<open>The characters that end a URL: the class \<open>[\s'"\)\(<>]\<close>.\<close>

definition url_stop_char :: "char \<Rightarrow> bool" where
  "url_stop_char c = (is_space c \<or> c \<in> set ''()<>'' \<or> c = CHR 0x22 \<or> c = CHR 0x27)"

text \<open>
  A match of \<open>https?://[^\s'"\)\(<>]+\<close> at the start of the string: the scheme, then
  the longest non-empty run of characters outside the class.
\<close>

definition match_url_at :: "string \<Rightarrow> string option" where
  "match_url_at s =
     (let scheme = (if startswith s ''https://'' then Some ''https://''
                    else if startswith s ''http://'' then Some ''http://'' else None)
      in case scheme of
           None \<Rightarrow> None
         | Some sch \<Rightarrow>
             (let body = takeWhile (\<lambda>c. \<not> url_stop_char c) (drop (length sch) s)
              in if body = [] then None else Some (sch @ body)))"

text \<open>
  \<open>re.findall\<close>: the non-overlapping matches from left to right. The first argument
  counts the characters still covered by the last match.
\<close>

fun findall_urls :: "nat \<Rightarrow> string \<Rightarrow> string list" where
  "findall_urls k [] = []"
| "findall_urls (Suc k) (c # cs) = findall_urls k cs"
| "findall_urls 0 (c # cs) =
     (case match_url_at (c # cs) of
        None \<Rightarrow> findall_urls 0 cs
      | Some m \<Rightarrow> m # findall_urls (length m - 1) cs)"

definition extract_urls_from_text :: "env \<Rightarrow> string \<Rightarrow> string list" where
  "extract_urls_from_text e text =
     (if text = [] then [] else set_iteration e (findall_urls 0 text))"

definition is_https :: "string \<Rightarrow> bool" where
  "is_https url = startswith (lower url) ''https://''"

text \<open>\<open>re.sub(r"^https?://", "", url)\<close>; the pattern is case sensitive.\<close>

definition strip_scheme :: "string \<Rightarrow> string" where
  "strip_scheme url =
     (if startswith url ''https://'' then drop 8 url
      else if startswith url ''http://'' then drop 7 url else url)"

text \<open>One or more digits; the rest of the string after them.\<close>

definition digits1 :: "string \<Rightarrow> string option" where
  "digits1 s = (if takeWhile is_digit s = [] then None else Some (dropWhile is_digit s))"

definition dot1 :: "string \<Rightarrow> string option" where
  "dot1 s = (case s of [] \<Rightarrow> None | c # cs \<Rightarrow> if c = CHR ''.'' then Some cs else None)"

text \<open>
  \<open>^\d+\.\d+\.\d+\.\d+$\<close>: the end anchor also matches before a final newline.
\<close>

definition dotted_quad :: "string \<Rightarrow> bool" where
  "dotted_quad host =
     (case Option.bind (Option.bind (Option.bind (Option.bind (Option.bind (Option.bind
             (digits1 host) dot1) digits1) dot1) digits1) dot1) digits1 of
        None \<Rightarrow> False
      | Some rest \<Rightarrow> rest = [] \<or> rest = [CHR 0x0A])"

definition has_ip_hostname :: "string \<Rightarrow> bool" where
  "has_ip_hostname url = dotted_quad (takeWhile (\<lambda>c. c \<noteq> CHR ''/'') (strip_scheme url))"

definition domain_length :: "env \<Rightarrow> string \<Rightarrow> nat" where
  "domain_length e url = length (domain (tld_extract e url))"

definition simple_typosquat_check :: "env \<Rightarrow> string \<Rightarrow> string option" where
  "simple_typosquat_check e url =
     (let d = domain (tld_extract e url)
      in case find (\<lambda>b. contains b d \<and> d \<noteq> b) POPULAR_BRANDS of
           None \<Rightarrow> None
         | Some b \<Rightarrow> Some (''possible typosquat/brand mimicry ('' @ b @ '')''))"

definition check_ssl_certificate :: "env \<Rightarrow> nat \<Rightarrow> string \<Rightarrow> bool" where
  "check_ssl_certificate e n dname =
     (case requests_get e n (''https://'' @ dname) of
        Raised \<Rightarrow> False
      | Response st h \<Rightarrow> st < 500)"

text \<open>
  The body of the loop over the URLs, one definition for each \<open>if\<close> (or \<open>try\<close>) of the
  source, in its order. The state is the running score and the list of reasons.
\<close>

type_synonym acc = "rat \<times> string list"

definition rule_https :: "string \<Rightarrow> acc \<Rightarrow> acc" where
  "rule_https url a =
     (if \<not> is_https url
      then (fadd (fst a) (fl (20 / 100)), snd a @ [''no HTTPS (insecure link)''])
      else a)"

definition rule_ip :: "string \<Rightarrow> acc \<Rightarrow> acc" where
  "rule_ip url a =
     (if has_ip_hostname url
      then (fadd (fst a) (fl (20 / 100)), snd a @ [''URL uses raw IP address''])
      else a)"

definition rule_length :: "env \<Rightarrow> string \<Rightarrow> acc \<Rightarrow> acc" where
  "rule_length e url a =
     (let dd = domain_length e url
      in if dd \<noteq> 0 \<and> 25 < dd
         then (fadd (fst a) (fl (5 / 100)), snd a @ [''long domain name''])
         else a)"

definition rule_brand :: "env \<Rightarrow> string \<Rightarrow> acc \<Rightarrow> acc" where
  "rule_brand e url a =
     (case simple_typosquat_check e url of
        Some ts \<Rightarrow> (fadd (fst a) (fl (15 / 100)), snd a @ [ts])
      | None \<Rightarrow> a)"

definition rule_fetch :: "env \<Rightarrow> nat \<Rightarrow> string \<Rightarrow> acc \<Rightarrow> acc" where
  "rule_fetch e n url a =
     (case requests_get e n url of
        Response st redirects \<Rightarrow>
          (if 3 \<le> redirects
           then (fadd (fst a) (fl (10 / 100)),
                 snd a @ [str_nat redirects @ '' redirects (suspicious)''])
           else a)
      | Raised \<Rightarrow>
          (fadd (fst a) (fl (5 / 100)), snd a @ [''could not fetch URL (network or blocked)'']))"

definition probe_domain :: "env \<Rightarrow> string \<Rightarrow> string" where
  "probe_domain e url =
     (let ext = tld_extract e url
      in if registered_domain ext \<noteq> [] then registered_domain ext else domain ext)"

definition rule_ssl :: "env \<Rightarrow> nat \<Rightarrow> string \<Rightarrow> acc \<Rightarrow> acc" where
  "rule_ssl e n url a =
     (let ssl_ok = check_ssl_certificate e n (probe_domain e url)
      in if ssl_ok = False
         then (fadd (fst a) (fl (15 / 100)), snd a @ [''ssl certificate check failed''])
         else a)"

definition analyze_url :: "env \<Rightarrow> nat \<Rightarrow> string \<Rightarrow> acc \<Rightarrow> acc" where
  "analyze_url e n url a =
     rule_ssl e (n + 1) url (rule_fetch e n url (rule_brand e url (rule_length e url
       (rule_ip url (rule_https url a)))))"

text \<open>The loop: the URL at position \<open>i\<close> makes the requests number \<open>2 i\<close> and \<open>2 i + 1\<close>.\<close>

fun url_loop :: "env \<Rightarrow> nat \<Rightarrow> string list \<Rightarrow> acc \<Rightarrow> acc" where
  "url_loop e n [] a = a"
| "url_loop e n (url # urls) a = url_loop e (n + 2) urls (analyze_url e n url a)"

text \<open>The keywords \<open>k\<close> with \<open>k in text_lower\<close>, and their number.\<close>

definition matched_keywords :: "string \<Rightarrow> string list" where
  "matched_keywords message = filter (\<lambda>k. contains k (lower message)) SUSPICIOUS_KEYWORDS"

definition kw_count :: "string \<Rightarrow> nat" where
  "kw_count message = length (matched_keywords message)"

definition keyword_rule :: "string \<Rightarrow> acc" where
  "keyword_rule message =
     (let n = kw_count message
      in if n \<noteq> 0
         then (fadd 0 (min (fmul (fl (2 / 10)) (fl (of_nat n))) (fl (4 / 10))),
               [''suspicious keywords ('' @ str_nat n @ '')''])
         else (0, []))"

definition verdict_of :: "rat \<Rightarrow> string" where
  "verdict_of s =
     (if fl (6 / 10) \<le> s then ''malicious''
      else if fl (3 / 10) \<le> s then ''suspicious''
      else ''safe'')"

definition analyze_payload :: "env \<Rightarrow> string \<Rightarrow> string list \<Rightarrow> string \<times> rat \<times> string list" where
  "analyze_payload e message urls =
     (let a = url_loop e 0 urls (keyword_rule message);
          s = (if 1 < fst a then 1 else fst a)
      in (verdict_of s, py_round2 s, snd a))"

section \<open>The store\<close>

text \<open>
  The two SQLite tables are lists of rows in insertion order. \<open>user_id\<close> is a nullable
  text column (the request model declares it \<open>Optional[str]\<close>), and a comparison with
  \<open>NULL\<close> in a \<open>WHERE\<close> clause selects nothing.
\<close>

record SubmissionIn =
  in_user_id :: "string option"
  in_source :: "string option"
  in_message :: "string option"
  in_urls :: "string list option"

record submission =
  sub_id :: int
  sub_user_id :: "string option"
  sub_source :: "string option"
  sub_message :: "string option"
  sub_urls :: "string list"
  sub_verdict :: string
  sub_score :: rat
  sub_reasons :: "string list"
  sub_feedback :: "string option"
  sub_created_at :: string

record user =
  user_id :: "string option"
  display_name :: "string option"
  total_reports :: int
  correct_reports :: int
  false_positives :: int

record db =
  submissions :: "submission list"
  users :: "user list"

definition empty_db :: db where
  "empty_db = \<lparr>submissions = [], users = []\<rparr>"

definition sql_eq :: "string option \<Rightarrow> string option \<Rightarrow> bool" where
  "sql_eq a b = (case a of None \<Rightarrow> False | Some x \<Rightarrow> (case b of None \<Rightarrow> False | Some y \<Rightarrow> x = y))"

text \<open>\<open>SELECT * FROM users WHERE user_id = ?\<close>\<close>

definition select_user :: "string option \<Rightarrow> user list \<Rightarrow> user list" where
  "select_user uid us = filter (\<lambda>u. sql_eq (user_id u) uid) us"

text \<open>\<open>INSERT OR REPLACE\<close>: a row with the same (non-null) primary key is replaced.\<close>

definition insert_or_replace_user :: "user \<Rightarrow> user list \<Rightarrow> user list" where
  "insert_or_replace_user row us = filter (\<lambda>u. \<not> sql_eq (user_id u) (user_id row)) us @ [row]"

text \<open>\<open>UPDATE users SET ... WHERE user_id = ?\<close>\<close>

definition update_user :: "(user \<Rightarrow> user) \<Rightarrow> string option \<Rightarrow> user list \<Rightarrow> user list" where
  "update_user f uid us = map (\<lambda>u. if sql_eq (user_id u) uid then f u else u) us"

text \<open>\<open>AUTOINCREMENT\<close>: one more than the largest id in the table; no row is ever deleted.\<close>

definition next_id :: "submission list \<Rightarrow> int" where
  "next_id subs = fold max (map sub_id subs) 0 + 1"

text \<open>\<open>SELECT * FROM submissions WHERE id = ?\<close>\<close>

definition select_submission :: "int \<Rightarrow> submission list \<Rightarrow> submission list" where
  "select_submission sid subs = filter (\<lambda>s. sub_id s = sid) subs"

section \<open>API endpoints\<close>

record analysis =
  out_verdict :: string
  out_score :: rat
  out_reasons :: "string list"
  out_urls :: "string list"
  analyzed_at :: string

text \<open>\<open>POST /api/analyze\<close>; \<open>now\<close> is the time stamp the clock gives.\<close>

definition analyze :: "env \<Rightarrow> string \<Rightarrow> SubmissionIn \<Rightarrow> db \<Rightarrow> analysis \<times> db" where
  "analyze e now sub d =
     (let message = (case in_message sub of None \<Rightarrow> [] | Some m \<Rightarrow> m);
          urls = (case in_urls sub of
                    None \<Rightarrow> extract_urls_from_text e message
                  | Some us \<Rightarrow> if us \<noteq> [] then us else extract_urls_from_text e message);
          (verdict, score, reasons) = analyze_payload e message urls;
          row = \<lparr>sub_id = next_id (submissions d), sub_user_id = in_user_id sub,
                 sub_source = in_source sub, sub_message = in_message sub, sub_urls = urls,
                 sub_verdict = verdict, sub_score = score, sub_reasons = reasons,
                 sub_feedback = None, sub_created_at = now\<rparr>;
          us = (if select_user (in_user_id sub) (users d) = []
                then insert_or_replace_user
                       \<lparr>user_id = in_user_id sub, display_name = in_user_id sub,
                        total_reports = 1, correct_reports = 0, false_positives = 0\<rparr> (users d)
                else update_user (\<lambda>u. u\<lparr>total_reports := total_reports u + 1\<rparr>)
                       (in_user_id sub) (users d))
      in (\<lparr>out_verdict = verdict, out_score = score, out_reasons = reasons, out_urls = urls,
           analyzed_at = now\<rparr>,
          \<lparr>submissions = submissions d @ [row], users = us\<rparr>))"

datatype http_error = HTTPException int string

text \<open>\<open>POST /api/feedback\<close>\<close>

definition feedback :: "int \<Rightarrow> string \<Rightarrow> db \<Rightarrow> http_error + db" where
  "feedback submission_id fb d =
     (case select_submission submission_id (submissions d) of
        [] \<Rightarrow> Inl (HTTPException 404 ''submission not found'')
      | sub # rest \<Rightarrow>
          (let subs = map (\<lambda>s. if sub_id s = submission_id then s\<lparr>sub_feedback := Some fb\<rparr> else s)
                        (submissions d);
               uid = sub_user_id sub;
               us = (if fb = ''malicious'' \<and> sub_verdict sub = ''malicious''
                     then update_user (\<lambda>u. u\<lparr>correct_reports := correct_reports u + 1\<rparr>) uid (users d)
                     else if fb = ''safe'' \<and> sub_verdict sub = ''safe''
                     then update_user (\<lambda>u. u\<lparr>correct_reports := correct_reports u + 1\<rparr>) uid (users d)
                     else if fb = ''safe'' \<and> sub_verdict sub \<noteq> ''safe''
                     then update_user (\<lambda>u. u\<lparr>false_positives := false_positives u + 1\<rparr>) uid (users d)
                     else users d)
           in Inr \<lparr>submissions = subs, users = us\<rparr>))"

text \<open>
  \<open>GET /api/userscores\<close> computes this for every row of \<open>users\<close>. The quotient and the
  product are floating-point operations; \<open>100\<close> is converted to a double exactly.
\<close>

definition awareness_score :: "user \<Rightarrow> int" where
  "awareness_score r =
     (let total = total_reports r; correct = correct_reports r; fp = false_positives r
      in if 0 < total
         then max 0 (py_int (fmul (truediv correct total) 100) - fp * 2)
         else 0)"

text \<open>Sequences of requests, starting from the empty store. A failed request changes nothing.\<close>

datatype request = Analyze env string SubmissionIn | Feedback int string

fun handle :: "db \<Rightarrow> request \<Rightarrow> db" where
  "handle d (Analyze e now sub) = snd (analyze e now sub d)"
| "handle d (Feedback sid fb) = (case feedback sid fb d of Inl err \<Rightarrow> d | Inr d' \<Rightarrow> d')"

definition run :: "request list \<Rightarrow> db" where
  "run reqs = foldl handle empty_db reqs"

section \<open>Doubles with denominator \<open>2 ^ 56\<close>\<close>

text \<open>
  Every score the analysis can reach below 1 is a multiple of \<open>2 ^ - 56\<close>. On such
  numbers rounding to 53 bits is integer arithmetic on the numerator.
\<close>

definition round_to :: "nat \<Rightarrow> int \<Rightarrow> int" where
  "round_to j n =
     (let q = n div 2 ^ j; r = n mod 2 ^ j; h = 2 ^ (j - 1)
      in if r < h then q * 2 ^ j else if h < r then (q + 1) * 2 ^ j
         else if even q then q * 2 ^ j else (q + 1) * 2 ^ j)"

definition fl56 :: "int \<Rightarrow> int" where
  "fl56 n = (let b = bitlen n in if b \<le> 53 then n else round_to (nat (b - 53)) n)"

text \<open>
  The numerators of the doubles not above 1 that additions of the rule weights reach
  from the three possible keyword scores.
\<close>

definition score_grid :: "int list" where
  "score_grid =
     [0, 3602879701896397, 7205759403792794, 10808639105689190, 10808639105689192,
      14411518807585588, 18014398509481984, 21617278211378380, 21617278211378384,
      25220157913274776, 25220157913274780, 28823037615171172, 28823037615171176,
      32425917317067568, 32425917317067572, 32425917317067576, 36028797018963964,
      36028797018963968, 36028797018963976, 39631676720860360, 39631676720860368,
      39631676720860376, 43234556422756760, 43234556422756768, 43234556422756776,
      46837436124653152, 46837436124653160, 46837436124653168, 46837436124653176,
      50440315826549552, 50440315826549560, 50440315826549568, 50440315826549576,
      54043195528445944, 54043195528445952, 54043195528445960, 54043195528445968,
      54043195528445976, 57646075230342344, 57646075230342352, 57646075230342360,
      57646075230342368, 57646075230342376, 61248954932238736, 61248954932238744,
      61248954932238752, 61248954932238760, 61248954932238768, 61248954932238776,
      64851834634135136, 64851834634135144, 64851834634135152, 64851834634135160,
      64851834634135168, 64851834634135176, 68454714336031528, 68454714336031536,
      68454714336031544, 68454714336031552, 68454714336031560, 68454714336031568,
      68454714336031576, 72057594037927928, 72057594037927936]"

definition on_grid :: "rat \<Rightarrow> bool" where
  "on_grid s = (\<exists>k \<in> set score_grid. s = of_int k / 2 ^ 56)"

definition weights56 :: "int list" where
  "weights56 = [14411518807585588, 3602879701896397, 10808639105689190, 7205759403792794]"

text \<open>The same four weights, each with its value in hundredths.\<close>

definition weights_table :: "(int \<times> int) list" where
  "weights_table =
     [(14411518807585588, 20), (3602879701896397, 5), (10808639105689190, 15),
      (7205759403792794, 10)]"


section \<open>The reconciliation rule as the specification words it\<close>

text \<open>
  The change of \<open>(correct_reports, false_positives)\<close> for a feedback label and a stored
  verdict, as an ordered decision.
\<close>

definition reconcile :: "string \<Rightarrow> string \<Rightarrow> int \<times> int" where
  "reconcile fb v =
     (if fb = ''malicious'' \<and> v = ''malicious'' then (1, 0)
      else if fb = ''safe'' \<and> v = ''safe'' then (1, 0)
      else if fb = ''safe'' then (0, 1)
      else (0, 0))"

definition apply_delta :: "int \<times> int \<Rightarrow> user \<Rightarrow> user" where
  "apply_delta dl u =
     u\<lparr>correct_reports := correct_reports u + fst dl,
       false_positives := false_positives u + snd dl\<rparr>"

definition set_feedback :: "int \<Rightarrow> string \<Rightarrow> submission list \<Rightarrow> submission list" where
  "set_feedback sid fb subs =
     map (\<lambda>s. if sub_id s = sid then s\<lparr>sub_feedback := Some fb\<rparr> else s) subs"

section \<open>A small concrete world\<close>

text \<open>
  An environment without network: every request raises, \<open>tldextract\<close> finds nothing,
  and a set is enumerated in the order of first occurrence.
\<close>

definition offline_env :: env where
  "offline_env =
     \<lparr>tld_extract = (\<lambda>url. \<lparr>domain = [], registered_domain = []\<rparr>),
      requests_get = (\<lambda>n url. Raised),
      set_iteration = remdups\<rparr>"

definition plain_submission :: SubmissionIn where
  "plain_submission =
     \<lparr>in_user_id = Some ''alice'', in_source = Some ''dashboard'',
      in_message = Some ''hello'', in_urls = Some []\<rparr>"

definition stored_plain :: submission where
  "stored_plain =
     \<lparr>sub_id = 1, sub_user_id = Some ''alice'', sub_source = Some ''dashboard'',
      sub_message = Some ''hello'', sub_urls = [], sub_verdict = ''safe'', sub_score = 0,
      sub_reasons = [], sub_feedback = None, sub_created_at = ''2024-01-01T00:00:00''\<rparr>"

definition alice :: "int \<Rightarrow> int \<Rightarrow> int \<Rightarrow> user" where
  "alice t c f =
     \<lparr>user_id = Some ''alice'', display_name = Some ''alice'',
      total_reports = t, correct_reports = c, false_positives = f\<rparr>"

definition one_report_db :: db where
  "one_report_db = \<lparr>submissions = [stored_plain], users = [alice 1 0 0]\<rparr>"

definition dup_submission :: SubmissionIn where
  "dup_submission =
     \<lparr>in_user_id = Some ''alice'', in_source = Some ''dashboard'', in_message = Some [],
      in_urls = Some [''http://a.com'', ''http://a.com'']\<rparr>"

section \<open>The reasons of one URL as the specification words them\<close>

text \<open>
  Each rule yields no reason or one reason. \<open>n\<close> is the number of requests made before
  the URL is looked at: the fetch is request \<open>n\<close>, the certificate probe request \<open>n + 1\<close>.
\<close>

definition https_reason :: "string \<Rightarrow> string list" where
  "https_reason url = (if is_https url then [] else [''no HTTPS (insecure link)''])"

definition ip_reason :: "string \<Rightarrow> string list" where
  "ip_reason url = (if has_ip_hostname url then [''URL uses raw IP address''] else [])"

definition length_reason :: "env \<Rightarrow> string \<Rightarrow> string list" where
  "length_reason e url = (if 25 < domain_length e url then [''long domain name''] else [])"

definition brand_reason :: "env \<Rightarrow> string \<Rightarrow> string list" where
  "brand_reason e url = (case simple_typosquat_check e url of None \<Rightarrow> [] | Some ts \<Rightarrow> [ts])"

definition fetch_reason :: "http_result \<Rightarrow> string list" where
  "fetch_reason r =
     (case r of
        Raised \<Rightarrow> [''could not fetch URL (network or blocked)'']
      | Response st h \<Rightarrow> if 3 \<le> h then [str_nat h @ '' redirects (suspicious)''] else [])"

definition probe_failed :: "http_result \<Rightarrow> bool" where
  "probe_failed r = (case r of Raised \<Rightarrow> True | Response st h \<Rightarrow> 500 \<le> st)"

definition ssl_reason :: "http_result \<Rightarrow> string list" where
  "ssl_reason r = (if probe_failed r then [''ssl certificate check failed''] else [])"

definition url_reasons :: "env \<Rightarrow> nat \<Rightarrow> string \<Rightarrow> string list" where
  "url_reasons e n url =
     https_reason url @ ip_reason url @ length_reason e url @ brand_reason e url
       @ fetch_reason (requests_get e n url)
       @ ssl_reason (requests_get e (n + 1) (''https://'' @ probe_domain e url))"

definition keyword_reason :: "string \<Rightarrow> string list" where
  "keyword_reason message =
     (if 1 \<le> kw_count message
      then [''suspicious keywords ('' @ str_nat (kw_count message) @ '')''] else [])"

section \<open>Bookkeeping for the counters\<close>

text \<open>
  The submission ids of the feedback requests that are accepted (not answered with 404)
  when the requests are handled one after the other, starting in the store \<open>d\<close>.
\<close>

definition accepted_id :: "db \<Rightarrow> request \<Rightarrow> int list" where
  "accepted_id d r =
     (case r of
        Analyze e now sub \<Rightarrow> []
      | Feedback sid fb \<Rightarrow> (case feedback sid fb d of Inl err \<Rightarrow> [] | Inr d' \<Rightarrow> [sid]))"

fun accepted_feedback_ids :: "db \<Rightarrow> request list \<Rightarrow> int list" where
  "accepted_feedback_ids d [] = []"
| "accepted_feedback_ids d (r # reqs) = accepted_id d r @ accepted_feedback_ids (handle d r) reqs"

definition reports_of :: "string \<Rightarrow> submission list \<Rightarrow> submission list" where
  "reports_of k subs = filter (\<lambda>s. sub_user_id s = Some k) subs"

definition labelled :: "string \<Rightarrow> submission list \<Rightarrow> submission list" where
  "labelled k subs = filter (\<lambda>s. sub_user_id s = Some k \<and> sub_feedback s \<noteq> None) subs"

text \<open>
  What holds of the store as long as the accepted feedback requests so far, with ids in
  \<open>F\<close>, went to different submissions.
\<close>

definition store_inv :: "int set \<Rightarrow> db \<Rightarrow> bool" where
  "store_inv F d =
     ((\<forall>s \<in> set (submissions d). sub_feedback s \<noteq> None \<longrightarrow> sub_id s \<in> F)
      \<and> (\<forall>s \<in> set (submissions d). \<forall>k. sub_user_id s = Some k \<longrightarrow>
            (\<exists>u \<in> set (users d). user_id u = Some k))
      \<and> (\<forall>u \<in> set (users d).
            case user_id u of
              None \<Rightarrow> correct_reports u + false_positives u \<le> total_reports u
            | Some k \<Rightarrow>
                total_reports u = int (length (reports_of k (submissions d)))
                \<and> correct_reports u + false_positives u
                    \<le> int (length (labelled k (submissions d)))))"

definition counters_ok :: "user \<Rightarrow> bool" where
  "counters_ok u = (1 \<le> total_reports u \<and> 0 \<le> correct_reports u \<and> 0 \<le> false_positives u)"

section \<open>Rounded scores\<close>

text \<open>
  \<open>cents k\<close> is \<open>round_half_even (100 * k / 2 ^ 56)\<close>: the score with numerator \<open>k\<close> in
  hundredths, as \<open>round(score, 2)\<close> sees it. \<open>cents_table\<close> lists, for each multiple of
  five hundredths, the numerator of the double nearest to it.
\<close>

definition cents :: "int \<Rightarrow> int" where
  "cents k = round_to 56 (100 * k) div 2 ^ 56"

definition cents_table :: "(int \<times> int) list" where
  "cents_table =
     [(0, 0), (5, 3602879701896397), (10, 7205759403792794), (15, 10808639105689190), (20,
      14411518807585588), (25, 18014398509481984), (30, 21617278211378380), (35,
      25220157913274776), (40, 28823037615171176), (45, 32425917317067572), (50,
      36028797018963968), (55, 39631676720860368), (60, 43234556422756760), (65,
      46837436124653160), (70, 50440315826549552), (75, 54043195528445952), (80,
      57646075230342352), (85, 61248954932238744), (90, 64851834634135144), (95,
      68454714336031536), (100, 72057594037927936)]"

definition grid_row_ok :: "int \<Rightarrow> bool" where
  "grid_row_ok k =
     (case map_of cents_table (cents k) of
        None \<Rightarrow> False
      | Some g \<Rightarrow>
          0 \<le> g \<and> g \<le> 2 ^ 56 \<and> 0 \<le> cents k \<and> cents k \<le> 100 \<and> 0 \<le> k
          \<and> (k = 0 \<or> fl56 k = k)
          \<and> (43234556422756760 \<le> g) = (43234556422756760 \<le> k)
          \<and> (21617278211378380 \<le> g) = (21617278211378380 \<le> k)
          \<and> (43234556422756760 \<le> k) = (60 \<le> cents k)
          \<and> (21617278211378380 \<le> k) = (30 \<le> cents k))"

section \<open>The exact sum of the triggered weights\<close>

text \<open>
  The weights of the rules as the decimal numbers of the specification, added without
  rounding. \<open>n\<close> is the number of requests made before the URL is looked at.
\<close>

definition keyword_weight :: "string \<Rightarrow> rat" where
  "keyword_weight message = min (2 / 10 * of_nat (kw_count message)) (4 / 10)"

definition https_weight :: "string \<Rightarrow> rat" where
  "https_weight url = (if is_https url then 0 else 20 / 100)"

definition ip_weight :: "string \<Rightarrow> rat" where
  "ip_weight url = (if has_ip_hostname url then 20 / 100 else 0)"

definition length_weight :: "env \<Rightarrow> string \<Rightarrow> rat" where
  "length_weight e url = (if 25 < domain_length e url then 5 / 100 else 0)"

definition brand_weight :: "env \<Rightarrow> string \<Rightarrow> rat" where
  "brand_weight e url = (case simple_typosquat_check e url of None \<Rightarrow> 0 | Some ts \<Rightarrow> 15 / 100)"

definition fetch_weight :: "http_result \<Rightarrow> rat" where
  "fetch_weight r =
     (case r of
        Raised \<Rightarrow> 5 / 100
      | Response st h \<Rightarrow> if 3 \<le> h then 10 / 100 else 0)"

definition ssl_weight :: "http_result \<Rightarrow> rat" where
  "ssl_weight r = (if probe_failed r then 15 / 100 else 0)"

definition url_weight :: "env \<Rightarrow> nat \<Rightarrow> string \<Rightarrow> rat" where
  "url_weight e n url =
     https_weight url + ip_weight url + length_weight e url + brand_weight e url
       + fetch_weight (requests_get e n url)
       + ssl_weight (requests_get e (n + 1) (''https://'' @ probe_domain e url))"

definition total_weight :: "env \<Rightarrow> string \<Rightarrow> string list \<Rightarrow> rat" where
  "total_weight e message urls =
     keyword_weight message
       + sum_list (map (\<lambda>i. url_weight e (2 * i) (urls ! i)) [0..<length urls])"

text \<open>
  How the floating-point score \<open>s\<close> follows the exact sum \<open>x\<close>: below 1 it is a double
  of the grid that rounds to \<open>x\<close>; once it is above 1 the exact sum is at least 1.
\<close>

definition tracks :: "rat \<Rightarrow> rat \<Rightarrow> bool" where
  "tracks s x =
     ((\<exists>k \<in> set score_grid. s = of_int k / 2 ^ 56 \<and> of_int (cents k) = 100 * x)
      \<or> (1 < s \<and> 1 \<le> x))"

section \<open>Properties of the float model\<close>

lemma pow2_powi: "pow2 e = 2 powi e"
  by (simp add: pow2_def power_int_def inverse_eq_divide power_one_over)

lemma pow2_pos: "0 < pow2 e"
  by (simp add: pow2_powi zero_less_power_int)

lemma pow2_add: "pow2 (a + b) = pow2 a * pow2 b"
  by (simp add: pow2_powi power_int_add)

lemma pow2_diff: "pow2 (a - b) = pow2 a / pow2 b"
proof -
  have "pow2 a = pow2 (a - b) * pow2 b"
    using pow2_add [of "a - b" b] by simp
  then show ?thesis
    using pow2_pos [of b] by simp
qed

lemma pow2_nat: "0 \<le> e \<Longrightarrow> pow2 e = 2 ^ nat e"
  by (simp add: pow2_def)

lemma pow2_mono: "a \<le> b \<Longrightarrow> pow2 a \<le> pow2 b"
  by (simp add: pow2_powi power_int_increasing)

lemma pow2_strict_mono: "a < b \<Longrightarrow> pow2 a < pow2 b"
  by (simp add: pow2_powi power_int_strict_increasing)

lemma pow2_less_cancel: "pow2 a < pow2 b \<Longrightarrow> a < b"
  using pow2_mono [of b a] by (cases "a < b") auto

lemma int_pow2_bounds:
  assumes "0 < (p::int)"
  shows "pow2 (bitlen p - 1) \<le> of_int p" and "of_int p < pow2 (bitlen p)"
proof -
  have b1: "1 \<le> bitlen p"
    using assms bitlen_eq_zero_iff [of p] bitlen_nonneg [of p] by linarith
  have lo: "2 ^ nat (bitlen p - 1) \<le> p" and hi: "p < 2 ^ nat (bitlen p)"
    using bitlen_bounds [OF assms] by auto
  have "(of_int (2 ^ nat (bitlen p - 1)) :: rat) \<le> of_int p"
    using lo by (simp only: of_int_le_iff)
  then show "pow2 (bitlen p - 1) \<le> of_int p"
    using b1 by (simp add: pow2_nat)
  have "(of_int p :: rat) < of_int (2 ^ nat (bitlen p))"
    using hi by (simp only: of_int_less_iff)
  then show "of_int p < pow2 (bitlen p)"
    using b1 by (simp add: pow2_nat)
qed

lemma binade_bounds:
  assumes "0 < a"
  shows "pow2 (binade a) \<le> a \<and> a < pow2 (binade a + 1)"
proof -
  obtain p q where pq: "quotient_of a = (p, q)"
    by (cases "quotient_of a")
  have q: "0 < q"
    using quotient_of_denom_pos [OF pq] .
  have a: "a = of_int p / of_int q"
    using quotient_of_div [OF pq] .
  have p: "0 < p"
    using assms q by (simp add: a zero_less_divide_iff)
  let ?e = "bitlen p - bitlen q"
  have "a < pow2 (bitlen p) / pow2 (bitlen q - 1)"
    unfolding a using int_pow2_bounds [OF p] int_pow2_bounds [OF q] p q pow2_pos [of "bitlen q - 1"]
    by (intro frac_less) auto
  then have up: "a < pow2 (?e + 1)"
    using pow2_diff [of "bitlen p" "bitlen q - 1"] by (simp add: algebra_simps)
  have "pow2 (bitlen p - 1) / pow2 (bitlen q) < a"
    unfolding a using int_pow2_bounds [OF p] int_pow2_bounds [OF q] p q pow2_pos [of "bitlen p - 1"]
    by (intro frac_less2) auto
  then have lo: "pow2 (?e - 1) < a"
    using pow2_diff [of "bitlen p - 1" "bitlen q"] by (simp add: algebra_simps)
  show ?thesis
  proof (cases "pow2 ?e \<le> a")
    case True
    then have "binade a = ?e"
      by (simp add: binade_def pq)
    with True up show ?thesis by simp
  next
    case False
    then have "binade a = ?e - 1"
      by (simp add: binade_def pq)
    with False lo show ?thesis by simp
  qed
qed

lemma binade_unique:
  assumes "pow2 e \<le> a" and "a < pow2 (e + 1)"
  shows "binade a = e"
proof -
  have "0 < a"
    using assms(1) pow2_pos [of e] by linarith
  from binade_bounds [OF this] have b: "pow2 (binade a) \<le> a" "a < pow2 (binade a + 1)"
    by auto
  have "pow2 e < pow2 (binade a + 1)"
    using assms(1) b(2) by linarith
  then have 1: "e < binade a + 1"
    by (rule pow2_less_cancel)
  have "pow2 (binade a) < pow2 (e + 1)"
    using assms(2) b(1) by linarith
  then have 2: "binade a < e + 1"
    by (rule pow2_less_cancel)
  from 1 2 show ?thesis by linarith
qed

lemma round_half_even_bounds:
  "of_int (round_half_even y) \<le> y + 1 / 2" "y - 1 / 2 \<le> of_int (round_half_even y)"
  unfolding round_half_even_def Let_def by (auto; linarith)+

lemma round_half_even_of_int [simp]: "round_half_even (of_int n) = n"
  by (simp add: round_half_even_def)


lemma round_half_even_div:
  assumes "1 \<le> j"
  shows "round_half_even (of_int n / 2 ^ j) * 2 ^ j = round_to j n"
proof -
  let ?q = "n div 2 ^ j" and ?r = "n mod 2 ^ j"
  have fl: "\<lfloor>(of_int n :: rat) / 2 ^ j\<rfloor> = ?q"
    using floor_divide_of_int_eq [of n "2 ^ j", where ?'a = rat] by simp
  have "(of_int n :: rat) = of_int (?q * 2 ^ j + ?r)"
    by (simp only: div_mult_mod_eq)
  then have "(of_int n :: rat) = of_int ?q * 2 ^ j + of_int ?r"
    by simp
  then have d: "(of_int n :: rat) / 2 ^ j - of_int ?q = of_int ?r / 2 ^ j"
    by (simp add: field_simps)
  have two: "(2::int) ^ j = 2 * 2 ^ (j - 1)"
    using assms by (cases j) auto
  have lt: "(of_int ?r :: rat) / 2 ^ j < 1 / 2 \<longleftrightarrow> ?r < 2 ^ (j - 1)"
  proof -
    have "(of_int ?r :: rat) / 2 ^ j < 1 / 2 \<longleftrightarrow> (of_int (2 * ?r) :: rat) < of_int (2 ^ j)"
      by (simp add: field_simps)
    also have "\<dots> \<longleftrightarrow> 2 * ?r < 2 ^ j"
      by (simp only: of_int_less_iff)
    also have "\<dots> \<longleftrightarrow> ?r < 2 ^ (j - 1)"
      by (subst two) simp
    finally show ?thesis .
  qed
  have gt: "1 / 2 < (of_int ?r :: rat) / 2 ^ j \<longleftrightarrow> 2 ^ (j - 1) < ?r"
  proof -
    have "1 / 2 < (of_int ?r :: rat) / 2 ^ j \<longleftrightarrow> (of_int (2 ^ j) :: rat) < of_int (2 * ?r)"
      by (simp add: field_simps)
    also have "\<dots> \<longleftrightarrow> 2 ^ j < 2 * ?r"
      by (simp only: of_int_less_iff)
    also have "\<dots> \<longleftrightarrow> 2 ^ (j - 1) < ?r"
      by (subst two) simp
    finally show ?thesis .
  qed
  show ?thesis
    unfolding round_half_even_def round_to_def Let_def fl d lt gt by simp
qed

lemma fl_dyadic56:
  assumes "0 < n"
  shows "fl (of_int n / 2 ^ 56) = of_int (fl56 n) / 2 ^ 56"
proof -
  define a :: rat where "a = of_int n / 2 ^ 56"
  define b where "b = bitlen n"
  have b1: "1 \<le> b"
    using assms bitlen_eq_zero_iff [of n] bitlen_nonneg [of n] unfolding b_def by linarith
  have p56: "pow2 (- 56) = 1 / 2 ^ 56"
    by (simp add: pow2_def)
  have a_pos: "0 < a" "a \<noteq> 0" "\<bar>a\<bar> = a" "sgn a = 1"
    using assms by (simp_all add: a_def)
  have a_eq: "a = of_int n * pow2 (- 56)"
    by (simp add: p56 a_def)
  have "pow2 (b - 1) * pow2 (- 56) \<le> of_int n * pow2 (- 56)"
    using int_pow2_bounds(1) [OF assms] pow2_pos [of "- 56"] unfolding b_def
    by (intro mult_right_mono) auto
  then have lo: "pow2 (b - 57) \<le> a"
    using pow2_add [of "b - 1" "- 56"] by (simp only: a_eq) simp
  have "of_int n * pow2 (- 56) < pow2 b * pow2 (- 56)"
    using int_pow2_bounds(2) [OF assms] pow2_pos [of "- 56"] unfolding b_def
    by (intro mult_strict_right_mono) auto
  then have hi: "a < pow2 (b - 57 + 1)"
    using pow2_add [of "b" "- 56"] by (simp only: a_eq) simp
  from lo hi have bin: "binade a = b - 57"
    by (rule binade_unique)
  have e: "max (binade a - 52) (- 1074) = b - 109"
    using b1 by (simp add: bin)
  have "pow2 (- 56) = pow2 (53 - b) * pow2 (b - 109)"
    using pow2_add [of "53 - b" "b - 109"] by simp
  then have y: "a / pow2 (b - 109) = of_int n * pow2 (53 - b)"
    using pow2_pos [of "b - 109"] by (simp add: a_eq)
  have fl_eq: "fl a = of_int (round_half_even (of_int n * pow2 (53 - b))) * pow2 (b - 109)"
    by (simp add: fl_def Let_def a_pos e y)
  show ?thesis
  proof (cases "b \<le> 53")
    case True
    then have "pow2 (53 - b) = of_int (2 ^ nat (53 - b))"
      by (simp add: pow2_nat)
    then have "of_int n * pow2 (53 - b) = of_int (n * 2 ^ nat (53 - b))"
      by simp
    then have "round_half_even (of_int n * pow2 (53 - b)) = n * 2 ^ nat (53 - b)"
      by (simp only: round_half_even_of_int)
    then have "fl a = of_int n * (pow2 (53 - b) * pow2 (b - 109))"
      using True by (simp add: fl_eq pow2_nat)
    also have "pow2 (53 - b) * pow2 (b - 109) = pow2 (- 56)"
      using pow2_add [of "53 - b" "b - 109"] by simp
    finally have "fl a = of_int n / 2 ^ 56"
      by (simp add: p56)
    moreover have "fl56 n = n"
      using True by (simp add: fl56_def b_def)
    ultimately show ?thesis
      by (simp add: a_def)
  next
    case False
    define j where "j = nat (b - 53)"
    have j: "1 \<le> j" "int j = b - 53"
      using False by (simp_all add: j_def)
    have pj: "pow2 (53 - b) = 1 / 2 ^ j"
      using False by (simp add: pow2_def j_def)
    have "pow2 (b - 109) = pow2 (int j) * pow2 (- 56)"
      using pow2_add [of "int j" "- 56"] j(2) by simp
    then have pe: "pow2 (b - 109) = 2 ^ j * (1 / 2 ^ 56)"
      by (simp only: pow2_nat p56) simp
    have "fl a = of_int (round_half_even (of_int n / 2 ^ j)) * 2 ^ j * (1 / 2 ^ 56)"
      by (simp only: fl_eq pj pe) simp
    also have "of_int (round_half_even (of_int n / 2 ^ j)) * (2::rat) ^ j
        = of_int (round_half_even (of_int n / 2 ^ j) * 2 ^ j)"
      by simp
    also have "\<dots> = of_int (round_to j n)"
      by (simp only: round_half_even_div [OF j(1)])
    finally have "fl a = of_int (round_to j n) / 2 ^ 56"
      by simp
    moreover have "fl56 n = round_to j n"
      using False by (simp add: fl56_def j_def b_def)
    ultimately show ?thesis
      by (simp add: a_def)
  qed
qed

lemma fl_lower:
  assumes "pow2 (- 1022) \<le> x"
  shows "x * (1 - 1 / 2 ^ 53) \<le> fl x"
proof -
  have "0 < x"
    using assms pow2_pos [of "- 1022"] by linarith
  then have x: "0 < x" "x \<noteq> 0" "\<bar>x\<bar> = x" "sgn x = 1"
    by auto
  from binade_bounds [OF x(1)] have bb: "pow2 (binade x) \<le> x"
    by simp
  have "pow2 (- 1022) < pow2 (binade x + 1)"
    using binade_bounds [OF x(1)] assms by linarith
  then have b0: "- 1022 \<le> binade x"
    using pow2_less_cancel [of "- 1022" "binade x + 1"] by simp
  let ?e = "binade x - 52"
  have e: "max ?e (- 1074) = ?e"
    using b0 by simp
  have pe: "pow2 ?e = pow2 (binade x) / 2 ^ 52"
    using pow2_diff [of "binade x" 52] by (simp add: pow2_def)
  have flx: "fl x = of_int (round_half_even (x / pow2 ?e)) * pow2 ?e"
    by (simp add: fl_def Let_def x e)
  have "(x / pow2 ?e - 1 / 2) * pow2 ?e \<le> fl x"
    unfolding flx using round_half_even_bounds(2) [of "x / pow2 ?e"] pow2_pos [of ?e]
    by (intro mult_right_mono) auto
  moreover have "(x / pow2 ?e - 1 / 2) * pow2 ?e = x - pow2 ?e / 2"
    using pow2_pos [of ?e] by (simp add: left_diff_distrib)
  ultimately have "x - pow2 ?e / 2 \<le> fl x"
    by simp
  moreover have "pow2 ?e / 2 \<le> x / 2 ^ 53"
    using bb by (simp add: pe)
  ultimately show ?thesis
    by (simp add: algebra_simps)
qed

lemma fl_lower_one:
  assumes "1 \<le> x"
  shows "x * (1 - 1 / 2 ^ 53) \<le> fl x"
proof -
  have "pow2 (- 1022) \<le> pow2 0"
    by (rule pow2_mono) simp
  then have "pow2 (- 1022) \<le> x"
    using assms by (simp add: pow2_def)
  then show ?thesis
    by (rule fl_lower)
qed

section \<open>The scores the analysis can reach\<close>

text \<open>
  Three tables, checked by evaluation: adding a rule weight to a score of the grid gives
  a score of the grid or one above 1; every score of the grid rounds to a multiple of
  five hundredths on the same side of both thresholds; and the doubles nearest to
  these multiples are the ones listed.
\<close>

lemma grid_closed_cents:
  "list_all (\<lambda>k. list_all (\<lambda>(w, c).
       (2 ^ 56 < fl56 (k + w) \<and> 100 \<le> cents k + c)
       \<or> (fl56 (k + w) \<in> set score_grid \<and> cents (fl56 (k + w)) = cents k + c))
     weights_table) score_grid"
  by code_simp

lemma grid_closed:
  "list_all (\<lambda>k. list_all (\<lambda>w. 2 ^ 56 < fl56 (k + w) \<or> fl56 (k + w) \<in> set score_grid) weights56) score_grid"
  using grid_closed_cents
  by (auto simp add: list_all_iff weights56_def weights_table_def)

lemma grid_rows: "list_all grid_row_ok score_grid"
  by code_simp

lemma cents_table_fl: "list_all (\<lambda>(c, g). fl (of_int c / 100) = of_int g / 2 ^ 56) cents_table"
  by code_simp

lemma fl_weights:
  "fl (1 / 5) = 14411518807585588 / 2 ^ 56"
  "fl (1 / 20) = 3602879701896397 / 2 ^ 56"
  "fl (3 / 20) = 10808639105689190 / 2 ^ 56"
  "fl (1 / 10) = 7205759403792794 / 2 ^ 56"
  "fl (2 / 5) = 28823037615171176 / 2 ^ 56"
  "fl (3 / 5) = 43234556422756760 / 2 ^ 56"
  "fl (3 / 10) = 21617278211378380 / 2 ^ 56"
  using cents_table_fl by (simp_all add: cents_table_def)

lemma grid_nonneg: "k \<in> set score_grid \<Longrightarrow> 0 \<le> k"
  using grid_rows by (auto simp add: list_all_iff grid_row_ok_def split: option.splits)

lemma fadd_grid:
  assumes "k \<in> set score_grid" and "w \<in> set weights56"
  shows "on_grid (fadd (of_int k / 2 ^ 56) (of_int w / 2 ^ 56))
       \<or> 1 < fadd (of_int k / 2 ^ 56) (of_int w / 2 ^ 56)"
proof -
  have w: "0 < w"
    using assms(2) by (auto simp add: weights56_def)
  then have pos: "0 < k + w"
    using grid_nonneg [OF assms(1)] by linarith
  have sum: "(of_int k :: rat) / 2 ^ 56 + of_int w / 2 ^ 56 = of_int (k + w) / 2 ^ 56"
    by (simp add: add_divide_distrib)
  have f: "fadd (of_int k / 2 ^ 56) (of_int w / 2 ^ 56) = of_int (fl56 (k + w)) / 2 ^ 56"
    unfolding fadd_def sum by (rule fl_dyadic56 [OF pos])
  from grid_closed assms have "2 ^ 56 < fl56 (k + w) \<or> fl56 (k + w) \<in> set score_grid"
    by (simp add: list_all_iff)
  then show ?thesis
  proof
    assume "2 ^ 56 < fl56 (k + w)"
    then have "(of_int (2 ^ 56) :: rat) < of_int (fl56 (k + w))"
      by (simp only: of_int_less_iff)
    then have "1 < (of_int (fl56 (k + w)) :: rat) / 2 ^ 56"
      by simp
    then have "1 < fadd (of_int k / 2 ^ 56) (of_int w / 2 ^ 56)"
      unfolding f .
    then show ?thesis ..
  next
    assume "fl56 (k + w) \<in> set score_grid"
    then have "on_grid (fadd (of_int k / 2 ^ 56) (of_int w / 2 ^ 56))"
      unfolding f on_grid_def by blast
    then show ?thesis ..
  qed
qed

lemma fadd_above:
  assumes "1 < s" and "1 / 25 \<le> w"
  shows "1 < fadd s w"
proof -
  have "1 \<le> s + w"
    using assms by linarith
  from fl_lower_one [OF this] have "(s + w) * (1 - 1 / 2 ^ 53) \<le> fl (s + w)" .
  moreover have "26 / 25 \<le> s + w"
    using assms by linarith
  ultimately show ?thesis
    unfolding fadd_def by simp
qed

lemma score_step:
  assumes "on_grid s \<or> 1 < s" and "w \<in> set weights56"
  shows "on_grid (fadd s (of_int w / 2 ^ 56)) \<or> 1 < fadd s (of_int w / 2 ^ 56)"
  using assms(1)
proof
  assume "on_grid s"
  then obtain k where k: "k \<in> set score_grid" and s: "s = of_int k / 2 ^ 56"
    unfolding on_grid_def by blast
  show ?thesis
    unfolding s by (rule fadd_grid [OF k assms(2)])
next
  assume s: "1 < s"
  have "(1::rat) / 25 \<le> of_int w / 2 ^ 56"
    using assms(2) by (auto simp add: weights56_def)
  from fadd_above [OF s this] show ?thesis ..
qed

lemma score_steps:
  assumes "on_grid s \<or> 1 < s"
  shows "on_grid (fadd s (fl (20 / 100))) \<or> 1 < fadd s (fl (20 / 100))"
    and "on_grid (fadd s (fl (5 / 100))) \<or> 1 < fadd s (fl (5 / 100))"
    and "on_grid (fadd s (fl (15 / 100))) \<or> 1 < fadd s (fl (15 / 100))"
    and "on_grid (fadd s (fl (10 / 100))) \<or> 1 < fadd s (fl (10 / 100))"
  using score_step [OF assms, of 14411518807585588] score_step [OF assms, of 3602879701896397]
    score_step [OF assms, of 10808639105689190] score_step [OF assms, of 7205759403792794]
  by (simp_all add: fl_weights weights56_def)

subsection \<open>The score of the keyword rule\<close>

lemma fl_on_grid:
  assumes "on_grid s" shows "fl s = s"
proof -
  from assms obtain k where k: "k \<in> set score_grid" and s: "s = of_int k / 2 ^ 56"
    unfolding on_grid_def by blast
  from grid_rows k have "0 \<le> k" "k = 0 \<or> fl56 k = k"
    by (auto simp add: list_all_iff grid_row_ok_def split: option.splits)
  then show ?thesis
  proof (cases "k = 0")
    case True
    then show ?thesis by (simp add: s fl_def)
  next
    case False
    with \<open>0 \<le> k\<close> \<open>k = 0 \<or> fl56 k = k\<close> have "0 < k" "fl56 k = k"
      by auto
    then show ?thesis
      unfolding s using fl_dyadic56 [of k] by simp
  qed
qed

lemma on_grid_consts:
  "on_grid 0" "on_grid 1" "on_grid (fl (1 / 5))" "on_grid (fl (2 / 5))"
  unfolding fl_weights on_grid_def by (simp_all add: score_grid_def)

lemma fl_small: "fl 1 = 1" "fl 2 = 2"
  by code_simp+

lemma keyword_score:
  "fst (keyword_rule m)
     = (if kw_count m = 0 then 0 else if kw_count m = 1 then fl (2 / 10) else fl (4 / 10))"
proof -
  define n where "n = kw_count m"
  have c: "fl (1 / 5) \<le> fl (2 / 5)" "0 < fl (1 / 5)"
    by (simp_all add: fl_weights)
  consider "n = 0" | "n = 1" | "n = 2" | "3 \<le> n"
    by linarith
  then have "fst (keyword_rule m) = (if n = 0 then 0 else if n = 1 then fl (1 / 5) else fl (2 / 5))"
  proof cases
    case 1
    then show ?thesis
      by (simp add: keyword_rule_def n_def)
  next
    case 2
    then show ?thesis
      using c fl_on_grid [OF on_grid_consts(3)]
      by (simp add: keyword_rule_def n_def [symmetric] fl_small fmul_def fadd_def)
  next
    case 3
    have "fl (2 * fl (1 / 5)) = fl (2 / 5)"
      using fl_on_grid [OF on_grid_consts(4)] by (simp add: fl_weights)
    then show ?thesis
      using 3 fl_on_grid [OF on_grid_consts(4)]
      by (simp add: keyword_rule_def n_def [symmetric] fl_small fmul_def fadd_def mult.commute)
  next
    case 4
    then have "(1::rat) \<le> of_nat n" "(3::rat) \<le> of_nat n"
      by simp_all
    from fl_lower_one [OF this(1)] this(2) have "3 * (1 - 1 / 2 ^ 53) \<le> fl (of_nat n)"
      by (simp add: algebra_simps)
    then have "fl (1 / 5) * (3 * (1 - 1 / 2 ^ 53)) \<le> fl (1 / 5) * fl (of_nat n)"
      using c(2) by (intro mult_left_mono) auto
    then have p: "1 / 2 \<le> fl (1 / 5) * fl (of_nat n)"
      by (simp add: fl_weights)
    have "pow2 (- 1022) \<le> pow2 (- 1)"
      by (rule pow2_mono) simp
    then have "pow2 (- 1022) \<le> fl (1 / 5) * fl (of_nat n)"
      using p by (simp add: pow2_def)
    from fl_lower [OF this] p have "1 / 2 * (1 - 1 / 2 ^ 53) \<le> fmul (fl (1 / 5)) (fl (of_nat n))"
      unfolding fmul_def by (simp add: algebra_simps)
    then have "fl (2 / 5) \<le> fmul (fl (1 / 5)) (fl (of_nat n))"
      by (simp add: fl_weights)
    then show ?thesis
      using 4 fl_on_grid [OF on_grid_consts(4)]
      by (simp add: keyword_rule_def n_def [symmetric] fadd_def min_def)
  qed
  then show ?thesis
    by (simp add: n_def)
qed

subsection \<open>Clamping, rounding and the verdict\<close>

lemma score_ok_rules:
  assumes "on_grid (fst a) \<or> 1 < fst a"
  shows "on_grid (fst (rule_https url a)) \<or> 1 < fst (rule_https url a)"
    and "on_grid (fst (rule_ip url a)) \<or> 1 < fst (rule_ip url a)"
    and "on_grid (fst (rule_length e url a)) \<or> 1 < fst (rule_length e url a)"
    and "on_grid (fst (rule_brand e url a)) \<or> 1 < fst (rule_brand e url a)"
    and "on_grid (fst (rule_fetch e n url a)) \<or> 1 < fst (rule_fetch e n url a)"
    and "on_grid (fst (rule_ssl e n url a)) \<or> 1 < fst (rule_ssl e n url a)"
  using assms score_steps [OF assms]
  by (simp_all add: rule_https_def rule_ip_def rule_length_def rule_brand_def rule_fetch_def
      rule_ssl_def Let_def split: option.split http_result.split)

lemma score_ok_analyze_url:
  assumes "on_grid (fst a) \<or> 1 < fst a"
  shows "on_grid (fst (analyze_url e n url a)) \<or> 1 < fst (analyze_url e n url a)"
  unfolding analyze_url_def
  by (intro score_ok_rules assms)

lemma score_ok_url_loop:
  assumes "on_grid (fst a) \<or> 1 < fst a"
  shows "on_grid (fst (url_loop e n urls a)) \<or> 1 < fst (url_loop e n urls a)"
  using assms
proof (induction urls arbitrary: n a)
  case Nil
  then show ?case by simp
next
  case (Cons url urls)
  show ?case
    using Cons.IH [OF score_ok_analyze_url [OF Cons.prems]] by simp
qed

lemma score_ok_keyword_rule: "on_grid (fst (keyword_rule m))"
  using on_grid_consts by (simp add: keyword_score)

lemma clamped_on_grid:
  "on_grid (if 1 < fst (url_loop e 0 urls (keyword_rule m)) then 1
            else fst (url_loop e 0 urls (keyword_rule m)))"
  using score_ok_url_loop [of "keyword_rule m" e 0 urls] score_ok_keyword_rule [of m]
    on_grid_consts(2)
  by auto

lemma cents_round:
  "round_half_even (of_int k / 2 ^ 56 * 100) = cents k"
proof -
  have "(of_int k :: rat) / 2 ^ 56 * 100 = of_int (100 * k) / 2 ^ 56"
    by simp
  moreover have "round_half_even (of_int (100 * k) / 2 ^ 56) * 2 ^ 56 = round_to 56 (100 * k)"
    by (rule round_half_even_div) simp
  ultimately have "round_half_even (of_int k / 2 ^ 56 * 100) * 2 ^ 56 = round_to 56 (100 * k)"
    by (simp only:)
  then have "round_to 56 (100 * k) div 2 ^ 56 = round_half_even (of_int k / 2 ^ 56 * 100)"
    by (simp only: flip: \<open>round_half_even (of_int k / 2 ^ 56 * 100) * 2 ^ 56 = round_to 56 (100 * k)\<close>) simp
  then show ?thesis
    by (simp only: cents_def)
qed

lemma rounded_score:
  assumes "on_grid s"
  shows "\<exists>c. 0 \<le> c \<and> c \<le> 100 \<and> py_round2 s = fl (of_int c / 100)
      \<and> 0 \<le> py_round2 s \<and> py_round2 s \<le> 1
      \<and> verdict_of s = (if 60 \<le> c then ''malicious'' else if 30 \<le> c then ''suspicious'' else ''safe'')
      \<and> verdict_of (py_round2 s) = verdict_of s"
proof -
  from assms obtain k where k: "k \<in> set score_grid" and s: "s = of_int k / 2 ^ 56"
    unfolding on_grid_def by blast
  from grid_rows k have "grid_row_ok k"
    by (simp add: list_all_iff)
  then obtain g where g: "map_of cents_table (cents k) = Some g"
    and b: "0 \<le> g" "g \<le> 2 ^ 56" "0 \<le> cents k" "cents k \<le> 100"
    and v: "(43234556422756760 \<le> g) = (43234556422756760 \<le> k)"
      "(21617278211378380 \<le> g) = (21617278211378380 \<le> k)"
      "(43234556422756760 \<le> k) = (60 \<le> cents k)"
      "(21617278211378380 \<le> k) = (30 \<le> cents k)"
    by (auto simp add: grid_row_ok_def split: option.splits)
  from g have "(cents k, g) \<in> set cents_table"
    by (rule map_of_SomeD)
  with cents_table_fl have tab: "fl (of_int (cents k) / 100) = of_int g / 2 ^ 56"
    by (auto simp add: list_all_iff)
  have r: "py_round2 s = of_int g / 2 ^ 56"
    unfolding py_round2_def s cents_round tab ..
  have cmp: "(of_int a / (2::rat) ^ 56 \<le> of_int b / 2 ^ 56) = (a \<le> b)" for a b :: int
    by (simp add: divide_le_cancel)
  have t6: "fl (6 / 10) = of_int 43234556422756760 / 2 ^ 56"
    and t3: "fl (3 / 10) = of_int 21617278211378380 / 2 ^ 56"
    by (simp_all add: fl_weights)
  have vs: "verdict_of s = (if 60 \<le> cents k then ''malicious''
      else if 30 \<le> cents k then ''suspicious'' else ''safe'')"
    unfolding verdict_of_def s t6 t3 cmp v ..
  have vr: "verdict_of (py_round2 s) = (if 60 \<le> cents k then ''malicious''
      else if 30 \<le> cents k then ''suspicious'' else ''safe'')"
    unfolding verdict_of_def r t6 t3 cmp v ..
  have "(0::rat) \<le> of_int g / 2 ^ 56" "of_int g / (2::rat) ^ 56 \<le> 1"
    using b(1,2) by simp_all
  then have "0 \<le> py_round2 s" "py_round2 s \<le> 1"
    by (simp_all only: r)
  moreover have "py_round2 s = fl (of_int (cents k) / 100)"
    by (simp only: r tab)
  ultimately show ?thesis
    using b(3,4) vs vr by (intro exI [of _ "cents k"]) simp
qed

subsection \<open>The score follows the exact sum of the weights\<close>

lemma cents_consts:
  "cents 0 = 0" "cents 14411518807585588 = 20" "cents 28823037615171176 = 40"
  "cents 72057594037927936 = 100"
  by code_simp+

lemma grid_le_one: "k \<in> set score_grid \<Longrightarrow> k \<le> 2 ^ 56"
  by (simp add: score_grid_def) linarith

lemma tracks_grid:
  assumes "k \<in> set score_grid" and "of_int (cents k) = 100 * x" and "(w, c) \<in> set weights_table"
  shows "tracks (fadd (of_int k / 2 ^ 56) (of_int w / 2 ^ 56)) (x + of_int c / 100)"
proof -
  have w: "0 < w"
    using assms(3) by (auto simp add: weights_table_def)
  then have pos: "0 < k + w"
    using grid_nonneg [OF assms(1)] by linarith
  have sum: "(of_int k :: rat) / 2 ^ 56 + of_int w / 2 ^ 56 = of_int (k + w) / 2 ^ 56"
    by (simp add: add_divide_distrib)
  have f: "fadd (of_int k / 2 ^ 56) (of_int w / 2 ^ 56) = of_int (fl56 (k + w)) / 2 ^ 56"
    unfolding fadd_def sum by (rule fl_dyadic56 [OF pos])
  have x: "100 * (x + of_int c / 100) = of_int (cents k + c)"
    using assms(2) by (simp add: algebra_simps)
  from grid_closed_cents assms(1,3)
  have "(2 ^ 56 < fl56 (k + w) \<and> 100 \<le> cents k + c)
       \<or> (fl56 (k + w) \<in> set score_grid \<and> cents (fl56 (k + w)) = cents k + c)"
    by (auto simp add: list_all_iff)
  then show ?thesis
  proof
    assume a: "2 ^ 56 < fl56 (k + w) \<and> 100 \<le> cents k + c"
    then have "(of_int (2 ^ 56) :: rat) < of_int (fl56 (k + w))"
      by (simp only: of_int_less_iff)
    then have "1 < (of_int (fl56 (k + w)) :: rat) / 2 ^ 56"
      by simp
    then have one: "1 < fadd (of_int k / 2 ^ 56) (of_int w / 2 ^ 56)"
      unfolding f .
    from a have "(of_int 100 :: rat) \<le> of_int (cents k + c)"
      by (simp only: of_int_le_iff)
    then have "1 \<le> x + of_int c / 100"
      using x by simp
    with one show ?thesis
      unfolding tracks_def by blast
  next
    assume a: "fl56 (k + w) \<in> set score_grid \<and> cents (fl56 (k + w)) = cents k + c"
    then have "of_int (cents (fl56 (k + w))) = 100 * (x + of_int c / 100)"
      using x by simp
    with a show ?thesis
      unfolding tracks_def f by blast
  qed
qed

lemma tracks_step:
  assumes "tracks s x" and "(w, c) \<in> set weights_table"
  shows "tracks (fadd s (of_int w / 2 ^ 56)) (x + of_int c / 100)"
proof -
  from assms(1) consider k where "k \<in> set score_grid" "s = of_int k / 2 ^ 56"
      "of_int (cents k) = 100 * x"
    | "1 < s" "1 \<le> x"
    unfolding tracks_def by blast
  then show ?thesis
  proof cases
    case 1
    show ?thesis
      unfolding 1(2) by (rule tracks_grid [OF 1(1) 1(3) assms(2)])
  next
    case 2
    have "(1::rat) / 25 \<le> of_int w / 2 ^ 56" "(0::rat) \<le> of_int c / 100"
      using assms(2) by (auto simp add: weights_table_def)
    then have "1 < fadd s (of_int w / 2 ^ 56)" "1 \<le> x + of_int c / 100"
      using fadd_above [OF 2(1)] 2(2) by auto
    then show ?thesis
      unfolding tracks_def by blast
  qed
qed

lemma tracks_steps:
  assumes "tracks s x"
  shows "tracks (fadd s (fl (20 / 100))) (x + 20 / 100)"
    and "tracks (fadd s (fl (5 / 100))) (x + 5 / 100)"
    and "tracks (fadd s (fl (15 / 100))) (x + 15 / 100)"
    and "tracks (fadd s (fl (10 / 100))) (x + 10 / 100)"
  using tracks_step [OF assms, of 14411518807585588 20] tracks_step [OF assms, of 3602879701896397 5]
    tracks_step [OF assms, of 10808639105689190 15] tracks_step [OF assms, of 7205759403792794 10]
  by (simp_all add: fl_weights weights_table_def)

lemma tracks_rules:
  assumes "tracks (fst a) x"
  shows "tracks (fst (rule_https url a)) (x + https_weight url)"
    and "tracks (fst (rule_ip url a)) (x + ip_weight url)"
    and "tracks (fst (rule_length e url a)) (x + length_weight e url)"
    and "tracks (fst (rule_brand e url a)) (x + brand_weight e url)"
    and "tracks (fst (rule_fetch e n url a)) (x + fetch_weight (requests_get e n url))"
    and "tracks (fst (rule_ssl e n url a))
           (x + ssl_weight (requests_get e n (''https://'' @ probe_domain e url)))"
  using assms tracks_steps [OF assms]
  by (simp_all add: rule_https_def rule_ip_def rule_length_def rule_brand_def rule_fetch_def
      rule_ssl_def check_ssl_certificate_def probe_failed_def https_weight_def ip_weight_def length_weight_def brand_weight_def
      fetch_weight_def ssl_weight_def Let_def split: option.split http_result.split)

lemma tracks_analyze_url:
  assumes "tracks (fst a) x"
  shows "tracks (fst (analyze_url e n url a)) (x + url_weight e n url)"
proof -
  have "x + url_weight e n url
      = x + https_weight url + ip_weight url + length_weight e url + brand_weight e url
          + fetch_weight (requests_get e n url)
          + ssl_weight (requests_get e (n + 1) (''https://'' @ probe_domain e url))"
    by (simp add: url_weight_def)
  then show ?thesis
    unfolding analyze_url_def
    by (simp only:) (intro tracks_rules assms)
qed

lemma tracks_url_loop:
  assumes "tracks (fst a) x"
  shows "tracks (fst (url_loop e n urls a))
           (x + sum_list (map (\<lambda>i. url_weight e (n + 2 * i) (urls ! i)) [0..<length urls]))"
  using assms
proof (induction urls arbitrary: n a x)
  case Nil
  then show ?case by simp
next
  case (Cons url urls)
  have "map (\<lambda>i. url_weight e (n + 2 * i) ((url # urls) ! i)) [0..<length (url # urls)]
      = url_weight e n url # map (\<lambda>i. url_weight e (n + 2 + 2 * i) (urls ! i)) [0..<length urls]"
    by (simp add: upt_conv_Cons map_Suc_upt [symmetric] del: upt_Suc)
  then show ?case
    using Cons.IH [OF tracks_analyze_url [OF Cons.prems, where e = e and n = n and url = url],
        where n = "n + 2"]
    by (simp add: add.assoc)
qed

lemma tracks_keyword_rule: "tracks (fst (keyword_rule m)) (keyword_weight m)"
proof -
  define n where "n = kw_count m"
  have g: "(0::int) \<in> set score_grid" "14411518807585588 \<in> set score_grid"
      "28823037615171176 \<in> set score_grid"
    by (simp_all add: score_grid_def)
  consider "n = 0" | "n = 1" | "2 \<le> n"
    by linarith
  then show ?thesis
  proof cases
    case 1
    then show ?thesis
      unfolding tracks_def using g(1) cents_consts(1)
      by (auto simp add: keyword_score keyword_weight_def n_def [symmetric] intro!: bexI [of _ 0])
  next
    case 2
    then show ?thesis
      unfolding tracks_def using g(2) cents_consts(2)
      by (auto simp add: keyword_score keyword_weight_def n_def [symmetric] fl_weights
          intro!: bexI [of _ 14411518807585588])
  next
    case 3
    then have "(2::rat) \<le> of_nat n"
      by simp
    then have "min (2 / 10 * of_nat n) (4 / 10) = (2 / 5 :: rat)"
      by (simp add: min_def)
    then show ?thesis
      unfolding tracks_def using 3 g(3) cents_consts(3)
      by (auto simp add: keyword_score keyword_weight_def n_def [symmetric] fl_weights
          intro!: bexI [of _ 28823037615171176])
  qed
qed

lemma tracks_result:
  assumes "tracks t x"
  shows "py_round2 (min 1 t) = fl (min 1 x)"
proof -
  from assms consider k where "k \<in> set score_grid" "t = of_int k / 2 ^ 56"
      "of_int (cents k) = 100 * x"
    | "1 < t" "1 \<le> x"
    unfolding tracks_def by blast
  then show ?thesis
  proof cases
    case 1
    from grid_le_one [OF 1(1)] have "(of_int k :: rat) \<le> of_int (2 ^ 56)"
      by (simp only: of_int_le_iff)
    then have t1: "t \<le> 1"
      by (simp add: 1(2))
    from grid_rows 1(1) have "cents k \<le> 100"
      by (auto simp add: list_all_iff grid_row_ok_def split: option.splits)
    then have "(of_int (cents k) :: rat) \<le> of_int 100"
      by (simp only: of_int_le_iff)
    then have x1: "x \<le> 1"
      using 1(3) by simp
    have "py_round2 t = fl (of_int (cents k) / 100)"
      unfolding py_round2_def 1(2) cents_round ..
    also have "of_int (cents k) / 100 = x"
      using 1(3) by simp
    finally show ?thesis
      using t1 x1 by (simp add: min_def)
  next
    case 2
    have "py_round2 1 = fl 1"
      by (simp add: py_round2_def round_half_even_def)
    then show ?thesis
      using 2 by (simp add: min_def)
  qed
qed

lemma score_is_clamped_sum:
  "fst (snd (analyze_payload e m urls)) = fl (min 1 (total_weight e m urls))"
proof -
  have "tracks (fst (url_loop e 0 urls (keyword_rule m))) (total_weight e m urls)"
    using tracks_url_loop [OF tracks_keyword_rule, where e = e and n = 0 and urls = urls and m1 = m]
    by (simp add: total_weight_def)
  then have r: "py_round2 (min 1 (fst (url_loop e 0 urls (keyword_rule m))))
      = fl (min 1 (total_weight e m urls))"
    by (rule tracks_result)
  have clamp: "(if 1 < t then 1 else t) = min 1 t" for t :: rat
    by (simp add: min_def)
  have "fst (snd (analyze_payload e m urls))
      = py_round2 (min 1 (fst (url_loop e 0 urls (keyword_rule m))))"
    unfolding analyze_payload_def Let_def clamp by simp
  with r show ?thesis
    by simp
qed

lemma weights_nonneg:
  "0 \<le> keyword_weight m" "0 \<le> url_weight e n url" "0 \<le> total_weight e m urls"
proof -
  show k: "0 \<le> keyword_weight m"
    by (simp add: keyword_weight_def)
  show u: "0 \<le> url_weight e n url" for n url
    by (simp add: url_weight_def https_weight_def ip_weight_def length_weight_def
        brand_weight_def fetch_weight_def ssl_weight_def split: option.split http_result.split)
  have "0 \<le> sum_list (map (\<lambda>i. url_weight e (2 * i) (urls ! i)) [0..<length urls])"
    by (rule sum_list_nonneg) (auto simp add: u)
  with k show "0 \<le> total_weight e m urls"
    by (simp add: total_weight_def)
qed

lemma verdict_of_sum:
  assumes "tracks t x"
  shows "verdict_of (min 1 t)
      = (if 6 / 10 \<le> x then ''malicious'' else if 3 / 10 \<le> x then ''suspicious'' else ''safe'')"
proof -
  have t6: "fl (6 / 10) = of_int 43234556422756760 / 2 ^ 56"
    and t3: "fl (3 / 10) = of_int 21617278211378380 / 2 ^ 56"
    by (simp_all add: fl_weights)
  have cmp: "(of_int a / (2::rat) ^ 56 \<le> of_int b / 2 ^ 56) = (a \<le> b)" for a b :: int
    by (simp add: divide_le_cancel)
  from assms consider k where "k \<in> set score_grid" "t = of_int k / 2 ^ 56"
      "of_int (cents k) = 100 * x"
    | "1 < t" "1 \<le> x"
    unfolding tracks_def by blast
  then show ?thesis
  proof cases
    case 1
    from grid_le_one [OF 1(1)] have "(of_int k :: rat) \<le> of_int (2 ^ 56)"
      by (simp only: of_int_le_iff)
    then have "t \<le> 1"
      by (simp add: 1(2))
    then have m: "min 1 t = of_int k / 2 ^ 56"
      by (simp add: min_def 1(2))
    from grid_rows 1(1) have v: "(43234556422756760 \<le> k) = (60 \<le> cents k)"
        "(21617278211378380 \<le> k) = (30 \<le> cents k)"
      by (auto simp add: list_all_iff grid_row_ok_def split: option.splits)
    have "(60 \<le> cents k) = ((of_int 60 :: rat) \<le> of_int (cents k))"
      by (simp only: of_int_le_iff)
    also have "\<dots> = (6 / 10 \<le> x)"
      unfolding 1(3) by auto
    finally have c6: "(60 \<le> cents k) = (6 / 10 \<le> x)" .
    have "(30 \<le> cents k) = ((of_int 30 :: rat) \<le> of_int (cents k))"
      by (simp only: of_int_le_iff)
    also have "\<dots> = (3 / 10 \<le> x)"
      unfolding 1(3) by auto
    finally have c3: "(30 \<le> cents k) = (3 / 10 \<le> x)" .
    show ?thesis
      unfolding verdict_of_def m t6 t3 cmp v c6 c3 ..
  next
    case 2
    have "fl (6 / 10) \<le> 1"
      by (simp add: fl_weights)
    then show ?thesis
      using 2 by (simp add: min_def verdict_of_def)
  qed
qed

lemma verdict_is_threshold_of_sum:
  "fst (analyze_payload e m urls)
     = (if 6 / 10 \<le> total_weight e m urls then ''malicious''
        else if 3 / 10 \<le> total_weight e m urls then ''suspicious'' else ''safe'')"
proof -
  have "tracks (fst (url_loop e 0 urls (keyword_rule m))) (total_weight e m urls)"
    using tracks_url_loop [OF tracks_keyword_rule, where e = e and n = 0 and urls = urls and m1 = m]
    by (simp add: total_weight_def)
  then have r: "verdict_of (min 1 (fst (url_loop e 0 urls (keyword_rule m))))
      = (if 6 / 10 \<le> total_weight e m urls then ''malicious''
         else if 3 / 10 \<le> total_weight e m urls then ''suspicious'' else ''safe'')"
    by (rule verdict_of_sum)
  have clamp: "(if 1 < t then 1 else t) = min 1 t" for t :: rat
    by (simp add: min_def)
  have "fst (analyze_payload e m urls)
      = verdict_of (min 1 (fst (url_loop e 0 urls (keyword_rule m))))"
    unfolding analyze_payload_def Let_def clamp by simp
  with r show ?thesis
    by simp
qed

text \<open>
  C1: for every message and list of URLs (and whatever the network answers) the score
  that \<open>analyze_payload\<close> returns is the accumulated sum of the triggered weights,
  clamped above at 1 and rounded to two decimals: it is the double nearest to
  \<open>min(1, total)\<close>, where \<open>total\<close> is the exact sum of the keyword weight and the
  weights of the rules triggered for each URL, which is never negative. So the score
  lies in \<open>[0, 1]\<close>, is 1 whenever the sum reaches 1, and is the double nearest to a
  number of hundredths between 0 and 100. The verdict is the threshold function of
  that returned score, and of the exact sum: \<open>malicious\<close> from 0.6 on, \<open>suspicious\<close>
  from 0.3 on and below 0.6, \<open>safe\<close> below 0.3; the scores 0.3 and 0.6 themselves give
  \<open>suspicious\<close> and \<open>malicious\<close>. (The code takes the verdict from the floating-point
  sum before rounding; rounding never moves a reachable sum across a threshold.)
\<close>

theorem score_range_and_verdict:
  "0 \<le> fst (snd (analyze_payload e m urls)) \<and> fst (snd (analyze_payload e m urls)) \<le> 1
   \<and> (\<exists>c. 0 \<le> c \<and> c \<le> 100
         \<and> fst (snd (analyze_payload e m urls)) = fl (of_int c / 100)
         \<and> fst (analyze_payload e m urls)
             = (if 60 \<le> c then ''malicious'' else if 30 \<le> c then ''suspicious'' else ''safe''))
   \<and> fst (analyze_payload e m urls) = verdict_of (fst (snd (analyze_payload e m urls)))
   \<and> verdict_of s = (if fl (6 / 10) \<le> s then ''malicious''
                      else if fl (3 / 10) \<le> s then ''suspicious'' else ''safe'')
   \<and> verdict_of (fl (3 / 10)) = ''suspicious''
   \<and> verdict_of (fl (6 / 10)) = ''malicious''
   \<and> fst (snd (analyze_payload e m urls))
       = py_round2 (min 1 (fst (url_loop e 0 urls (keyword_rule m))))
   \<and> fst (snd (analyze_payload e m urls)) = fl (min 1 (total_weight e m urls))
   \<and> fst (snd (analyze_payload e m urls))
       = (if 1 \<le> total_weight e m urls then 1 else fl (total_weight e m urls))
   \<and> fst (analyze_payload e m urls)
       = (if 6 / 10 \<le> total_weight e m urls then ''malicious''
          else if 3 / 10 \<le> total_weight e m urls then ''suspicious'' else ''safe'')
   \<and> 0 \<le> total_weight e m urls
   \<and> total_weight e m urls
       = keyword_weight m
         + sum_list (map (\<lambda>i. url_weight e (2 * i) (urls ! i)) [0..<length urls])
   \<and> keyword_weight m = min (2 / 10 * of_nat (kw_count m)) (4 / 10)
   \<and> url_weight e n url
       = https_weight url + ip_weight url + length_weight e url + brand_weight e url
         + fetch_weight (requests_get e n url)
         + ssl_weight (requests_get e (n + 1) (''https://'' @ probe_domain e url))"
proof -
  define t where "t = (if 1 < fst (url_loop e 0 urls (keyword_rule m)) then 1
            else fst (url_loop e 0 urls (keyword_rule m)))"
  have t: "on_grid t"
    unfolding t_def by (rule clamped_on_grid)
  have res: "analyze_payload e m urls
      = (verdict_of t, py_round2 t, snd (url_loop e 0 urls (keyword_rule m)))"
    unfolding analyze_payload_def Let_def t_def ..
  have v: "fst (analyze_payload e m urls) = verdict_of t"
    and sc: "fst (snd (analyze_payload e m urls)) = py_round2 t"
    unfolding res by simp_all
  have lt: "\<not> fl (6 / 10) \<le> fl (3 / 10)"
    by (simp add: fl_weights)
  have b3: "verdict_of (fl (3 / 10)) = ''suspicious''"
    unfolding verdict_of_def using lt by simp
  have b6: "verdict_of (fl (6 / 10)) = ''malicious''"
    unfolding verdict_of_def by simp
  from rounded_score [OF t] obtain c where c: "0 \<le> c" "c \<le> 100"
      "py_round2 t = fl (of_int c / 100)" "0 \<le> py_round2 t" "py_round2 t \<le> 1"
      "verdict_of t = (if 60 \<le> c then ''malicious'' else if 30 \<le> c then ''suspicious'' else ''safe'')"
      "verdict_of (py_round2 t) = verdict_of t"
    by blast
  have ex: "\<exists>c. 0 \<le> c \<and> c \<le> 100
         \<and> fst (snd (analyze_payload e m urls)) = fl (of_int c / 100)
         \<and> fst (analyze_payload e m urls)
             = (if 60 \<le> c then ''malicious'' else if 30 \<le> c then ''suspicious'' else ''safe'')"
    unfolding v sc using c(1,2,3,6) by blast
  have same: "fst (analyze_payload e m urls) = verdict_of (fst (snd (analyze_payload e m urls)))"
    unfolding v sc using c(7) by simp
  have range: "0 \<le> fst (snd (analyze_payload e m urls))" "fst (snd (analyze_payload e m urls)) \<le> 1"
    unfolding sc using c(4,5) by simp_all
  have vdef: "verdict_of s = (if fl (6 / 10) \<le> s then ''malicious''
                      else if fl (3 / 10) \<le> s then ''suspicious'' else ''safe'')"
    by (rule verdict_of_def)
  have clamp: "(if 1 < t then 1 else t) = min 1 t" for t :: rat
    by (simp add: min_def)
  have code: "fst (snd (analyze_payload e m urls))
       = py_round2 (min 1 (fst (url_loop e 0 urls (keyword_rule m))))"
    unfolding sc t_def clamp ..
  have sum: "fst (snd (analyze_payload e m urls)) = fl (min 1 (total_weight e m urls))"
    by (rule score_is_clamped_sum)
  have one: "fst (snd (analyze_payload e m urls))
       = (if 1 \<le> total_weight e m urls then 1 else fl (total_weight e m urls))"
    unfolding sum by (simp add: min_def fl_small)
  have vsum: "fst (analyze_payload e m urls)
       = (if 6 / 10 \<le> total_weight e m urls then ''malicious''
          else if 3 / 10 \<le> total_weight e m urls then ''suspicious'' else ''safe'')"
    by (rule verdict_is_threshold_of_sum)
  have nn: "0 \<le> total_weight e m urls"
    by (rule weights_nonneg)
  have tw: "total_weight e m urls
       = keyword_weight m
         + sum_list (map (\<lambda>i. url_weight e (2 * i) (urls ! i)) [0..<length urls])"
    by (rule total_weight_def)
  have kw: "keyword_weight m = min (2 / 10 * of_nat (kw_count m)) (4 / 10)"
    by (rule keyword_weight_def)
  have uw: "url_weight e n url
       = https_weight url + ip_weight url + length_weight e url + brand_weight e url
         + fetch_weight (requests_get e n url)
         + ssl_weight (requests_get e (n + 1) (''https://'' @ probe_domain e url))"
    by (rule url_weight_def)
  from range ex same vdef b3 b6 code sum one vsum nn tw kw uw show ?thesis
    by (intro conjI)
qed

section \<open>The keyword rule\<close>

lemma startswith_iff: "startswith s k \<longleftrightarrow> (\<exists>q. s = k @ q)"
  by (induction s k rule: startswith.induct) auto

lemma contains_iff: "contains k s \<longleftrightarrow> (\<exists>p q. s = p @ k @ q)"
proof (induction s)
  case Nil
  then show ?case by auto
next
  case (Cons c cs)
  show ?case
  proof
    assume "contains k (c # cs)"
    then consider "startswith (c # cs) k" | "contains k cs"
      by auto
    then show "\<exists>p q. c # cs = p @ k @ q"
    proof cases
      case 1
      then obtain q where "c # cs = k @ q"
        unfolding startswith_iff by blast
      then have "c # cs = [] @ k @ q"
        by simp
      then show ?thesis by blast
    next
      case 2
      then obtain p q where "cs = p @ k @ q"
        using Cons.IH by blast
      then have "c # cs = (c # p) @ k @ q"
        by simp
      then show ?thesis by blast
    qed
  next
    assume "\<exists>p q. c # cs = p @ k @ q"
    then obtain p q where pq: "c # cs = p @ k @ q"
      by blast
    show "contains k (c # cs)"
    proof (cases p)
      case Nil
      then have "startswith (c # cs) k"
        unfolding startswith_iff using pq by auto
      then show ?thesis by simp
    next
      case (Cons a p')
      then have "cs = p' @ k @ q"
        using pq by simp
      then have "contains k cs"
        using Cons.IH by blast
      then show ?thesis by simp
    qed
  qed
qed

lemma keywords_distinct: "distinct SUSPICIOUS_KEYWORDS" "length SUSPICIOUS_KEYWORDS = 14"
  by (simp_all add: SUSPICIOUS_KEYWORDS_def)

lemma kw_count_card:
  "kw_count m = card {k \<in> set SUSPICIOUS_KEYWORDS. \<exists>p q. lower m = p @ k @ q}"
proof -
  have "distinct (filter (\<lambda>k. contains k (lower m)) SUSPICIOUS_KEYWORDS)"
    using keywords_distinct(1) by (rule distinct_filter)
  then have "kw_count m = card (set (filter (\<lambda>k. contains k (lower m)) SUSPICIOUS_KEYWORDS))"
    unfolding kw_count_def matched_keywords_def by (simp only: distinct_card)
  also have "set (filter (\<lambda>k. contains k (lower m)) SUSPICIOUS_KEYWORDS)
      = {k \<in> set SUSPICIOUS_KEYWORDS. \<exists>p q. lower m = p @ k @ q}"
    by (simp add: contains_iff)
  finally show ?thesis .
qed

lemma kw_count_le: "kw_count m \<le> 14"
  unfolding kw_count_def matched_keywords_def using length_filter_le [of _ SUSPICIOUS_KEYWORDS]
  by (simp add: keywords_distinct(2))

text \<open>
  C6: the keyword rule looks once at the whole lowercased message. With \<open>N\<close> the number
  of the 14 keywords that occur in it as substrings, the rule contributes
  \<open>min(0.2 * N, 0.4)\<close> to the score and gives the one reason
  \<open>suspicious keywords (N)\<close> if and only if \<open>N \<ge> 1\<close>; the contribution is the cap 0.4
  exactly when \<open>N \<ge> 2\<close>. Without URLs the result of the analysis is that of the
  keyword rule alone.
\<close>

theorem keyword_rule_contribution:
  "kw_count m = card {k \<in> set SUSPICIOUS_KEYWORDS. \<exists>p q. lower m = p @ k @ q}
   \<and> length SUSPICIOUS_KEYWORDS = 14 \<and> kw_count m \<le> 14
   \<and> fst (keyword_rule m) = fl (min (2 / 10 * of_nat (kw_count m)) (4 / 10))
   \<and> snd (keyword_rule m)
       = (if 1 \<le> kw_count m then [''suspicious keywords ('' @ str_nat (kw_count m) @ '')'']
          else [])
   \<and> (fst (keyword_rule m) = fl (4 / 10)) = (2 \<le> kw_count m)
   \<and> analyze_payload e m []
       = (verdict_of (fst (keyword_rule m)), py_round2 (fst (keyword_rule m)),
          snd (keyword_rule m))"
proof -
  define n where "n = kw_count m"
  have ks: "fst (keyword_rule m) = (if n = 0 then 0 else if n = 1 then fl (1 / 5) else fl (2 / 5))"
    by (simp add: keyword_score n_def)
  have ne: "fl (1 / 5) \<noteq> fl (2 / 5)" "0 \<noteq> fl (2 / 5)" "\<not> 1 < fl (1 / 5)" "\<not> 1 < fl (2 / 5)"
    by (simp_all add: fl_weights)
  consider "n = 0" | "n = 1" | "2 \<le> n"
    by linarith
  then have sc: "fst (keyword_rule m) = fl (min (2 / 10 * of_nat n) (4 / 10))"
  proof cases
    case 1
    then show ?thesis by (simp add: ks fl_def)
  next
    case 2
    then show ?thesis by (simp add: ks)
  next
    case 3
    then have "(2::rat) \<le> of_nat n"
      by simp
    then have "min (2 / 10 * of_nat n) (4 / 10) = (2 / 5 :: rat)"
      by (simp add: min_def)
    then show ?thesis
      using 3 by (simp add: ks)
  qed
  have cap: "(fst (keyword_rule m) = fl (4 / 10)) = (2 \<le> n)"
    using ne by (auto simp add: ks)
  have rs: "snd (keyword_rule m)
       = (if 1 \<le> n then [''suspicious keywords ('' @ str_nat n @ '')''] else [])"
    by (simp add: keyword_rule_def Let_def n_def)
  have "\<not> 1 < fst (keyword_rule m)"
    using ne by (simp add: ks)
  then have ap: "analyze_payload e m []
       = (verdict_of (fst (keyword_rule m)), py_round2 (fst (keyword_rule m)),
          snd (keyword_rule m))"
    by (simp add: analyze_payload_def Let_def)
  from kw_count_card [of m] keywords_distinct(2) kw_count_le [of m] sc rs cap ap show ?thesis
    unfolding n_def by (intro conjI)
qed

section \<open>Feedback reconciliation\<close>

lemma apply_delta_zero [simp]: "apply_delta (0, 0) u = u"
  by (simp add: apply_delta_def)

lemma update_user_id [simp]: "update_user (\<lambda>u. u) uid us = us"
  by (simp add: update_user_def)

lemma feedback_users:
  assumes "select_submission sid (submissions d) = sub # rest"
  shows "feedback sid fb d =
    Inr \<lparr>submissions = set_feedback sid fb (submissions d),
         users = update_user (apply_delta (reconcile fb (sub_verdict sub))) (sub_user_id sub) (users d)\<rparr>"
proof -
  have c: "(\<lambda>u. u\<lparr>correct_reports := correct_reports u + 1\<rparr>) = apply_delta (1, 0)"
    by (rule ext) (simp add: apply_delta_def)
  have f: "(\<lambda>u. u\<lparr>false_positives := false_positives u + 1\<rparr>) = apply_delta (0, 1)"
    by (rule ext) (simp add: apply_delta_def)
  have z: "update_user (apply_delta (0, 0)) (sub_user_id sub) (users d) = users d"
    by (simp add: update_user_def cong: if_cong)
  show ?thesis
    using assms by (simp add: feedback_def Let_def reconcile_def set_feedback_def c f z)
qed




subsection \<open>Repeated feedback\<close>

lemma select_set_feedback:
  "select_submission sid (set_feedback sid fb subs)
     = map (\<lambda>s. s\<lparr>sub_feedback := Some fb\<rparr>) (select_submission sid subs)"
  by (induction subs) (simp_all add: select_submission_def set_feedback_def)

lemma set_feedback_twice:
  "set_feedback sid fb (set_feedback sid fb subs) = set_feedback sid fb subs"
  by (induction subs) (simp_all add: set_feedback_def)

lemma user_id_apply_delta [simp]: "user_id (apply_delta dl u) = user_id u"
  by (simp add: apply_delta_def)

lemma update_user_twice:
  "update_user (apply_delta dl) uid (update_user (apply_delta dl) uid us)
     = update_user (apply_delta dl \<circ> apply_delta dl) uid us"
  by (induction us) (simp_all add: update_user_def)

lemma length_update_user [simp]: "length (update_user f uid us) = length us"
  by (simp add: update_user_def)

lemma nth_update_user:
  "i < length us \<Longrightarrow>
     update_user f uid us ! i = (if sql_eq (user_id (us ! i)) uid then f (us ! i) else us ! i)"
  by (simp add: update_user_def)

text \<open>
  C5: feedback is not idempotent. Every call on the submission writes its label over
  the stored one, whatever that was. A second identical call succeeds, leaves the label
  as the first call wrote it, and applies the reconciliation again: every user's
  counters have then moved by twice the change of a single call.
\<close>

theorem feedback_twice_doubles:
  assumes "feedback sid fb d = Inr d1"
  shows "\<exists>d2. feedback sid fb d1 = Inr d2
      \<and> submissions d2 = submissions d1
      \<and> (\<forall>s \<in> set (select_submission sid (submissions d1)). sub_feedback s = Some fb)
      \<and> (\<exists>d3. feedback sid fb' d1 = Inr d3
            \<and> (\<forall>s \<in> set (select_submission sid (submissions d3)). sub_feedback s = Some fb'))
      \<and> length (users d1) = length (users d) \<and> length (users d2) = length (users d)
      \<and> (\<forall>i < length (users d).
            correct_reports (users d2 ! i) - correct_reports (users d ! i)
              = 2 * (correct_reports (users d1 ! i) - correct_reports (users d ! i))
          \<and> false_positives (users d2 ! i) - false_positives (users d ! i)
              = 2 * (false_positives (users d1 ! i) - false_positives (users d ! i))
          \<and> total_reports (users d2 ! i) = total_reports (users d ! i)
          \<and> user_id (users d2 ! i) = user_id (users d ! i))"
proof -
  from assms obtain sub rest where sel: "select_submission sid (submissions d) = sub # rest"
    by (cases "select_submission sid (submissions d)") (auto simp add: feedback_def)
  let ?dl = "reconcile fb (sub_verdict sub)" and ?uid = "sub_user_id sub"
  have d1: "d1 = \<lparr>submissions = set_feedback sid fb (submissions d),
                  users = update_user (apply_delta ?dl) ?uid (users d)\<rparr>"
    using assms feedback_users [OF sel, of fb] by simp
  have sel1: "select_submission sid (submissions d1)
      = sub\<lparr>sub_feedback := Some fb\<rparr> # map (\<lambda>s. s\<lparr>sub_feedback := Some fb\<rparr>) rest"
    by (simp add: d1 select_set_feedback sel)
  define d2 where "d2 = \<lparr>submissions = set_feedback sid fb (submissions d1),
      users = update_user (apply_delta ?dl) ?uid (users d1)\<rparr>"
  have f2: "feedback sid fb d1 = Inr d2"
    using feedback_users [OF sel1, of fb] by (simp add: d2_def)
  have s2: "submissions d2 = submissions d1"
    by (simp add: d2_def d1 set_feedback_twice)
  have lab: "\<forall>s \<in> set (select_submission sid (submissions d1)). sub_feedback s = Some fb"
    by (auto simp add: sel1)
  have over: "\<exists>d3. feedback sid fb' d1 = Inr d3
            \<and> (\<forall>s \<in> set (select_submission sid (submissions d3)). sub_feedback s = Some fb')"
    using feedback_users [OF sel1, of fb'] by (auto simp add: select_set_feedback)
  have u1: "users d1 = update_user (apply_delta ?dl) ?uid (users d)"
    by (simp add: d1)
  have u2: "users d2 = update_user (apply_delta ?dl \<circ> apply_delta ?dl) ?uid (users d)"
    by (simp add: d2_def u1 update_user_twice)
  have "\<forall>i < length (users d).
            correct_reports (users d2 ! i) - correct_reports (users d ! i)
              = 2 * (correct_reports (users d1 ! i) - correct_reports (users d ! i))
          \<and> false_positives (users d2 ! i) - false_positives (users d ! i)
              = 2 * (false_positives (users d1 ! i) - false_positives (users d ! i))
          \<and> total_reports (users d2 ! i) = total_reports (users d ! i)
          \<and> user_id (users d2 ! i) = user_id (users d ! i)"
    by (simp add: u1 u2 nth_update_user apply_delta_def)
  with f2 s2 lab over show ?thesis
    by (simp add: u1 u2)
qed

theorem feedback_twice_doubles_witness:
  "feedback 1 ''safe'' one_report_db
     = Inr \<lparr>submissions = [stored_plain\<lparr>sub_feedback := Some ''safe''\<rparr>], users = [alice 1 1 0]\<rparr>
   \<and> feedback 1 ''safe''
        \<lparr>submissions = [stored_plain\<lparr>sub_feedback := Some ''safe''\<rparr>], users = [alice 1 1 0]\<rparr>
     = Inr \<lparr>submissions = [stored_plain\<lparr>sub_feedback := Some ''safe''\<rparr>], users = [alice 1 2 0]\<rparr>"
proof -
  have f1: "feedback 1 ''safe'' one_report_db
     = Inr \<lparr>submissions = [stored_plain\<lparr>sub_feedback := Some ''safe''\<rparr>], users = [alice 1 1 0]\<rparr>"
    by (simp add: feedback_def select_submission_def one_report_db_def stored_plain_def
        alice_def update_user_def sql_eq_def)
  from feedback_twice_doubles [OF f1] f1 show ?thesis
    by (auto simp add: feedback_def select_submission_def stored_plain_def
        alice_def update_user_def sql_eq_def)
qed

section \<open>The user counters\<close>

lemma run_snoc: "run (reqs @ [r]) = handle (run reqs) r"
  by (simp add: run_def)

lemma accepted_feedback_ids_snoc:
  "accepted_feedback_ids d (reqs @ [r])
     = accepted_feedback_ids d reqs @ accepted_id (foldl handle d reqs) r"
  by (induction reqs arbitrary: d) simp_all

lemma sql_eq_None [simp]: "sql_eq a None = False" "sql_eq None b = False"
  by (simp_all add: sql_eq_def split: option.split)

lemma sql_eq_Some [simp]: "sql_eq a (Some k) = (a = Some k)"
  by (cases a) (simp_all add: sql_eq_def)

subsection \<open>Counters never go below their start\<close>

lemma analyze_users:
  "users (snd (analyze e now sub d)) =
     (if select_user (in_user_id sub) (users d) = []
      then users d @ [\<lparr>user_id = in_user_id sub, display_name = in_user_id sub,
                         total_reports = 1, correct_reports = 0, false_positives = 0\<rparr>]
      else update_user (\<lambda>u. u\<lparr>total_reports := total_reports u + 1\<rparr>) (in_user_id sub) (users d))"
proof -
  have "filter (\<lambda>u. \<not> sql_eq (user_id u) (in_user_id sub)) (users d) = users d"
    if "select_user (in_user_id sub) (users d) = []"
    using that by (simp add: select_user_def filter_empty_conv)
  then show ?thesis
    by (simp add: analyze_def Let_def insert_or_replace_user_def split: prod.split)
qed

lemma analyze_submissions:
  "\<exists>v sc rs us. submissions (snd (analyze e now sub d)) = submissions d @
      [\<lparr>sub_id = next_id (submissions d), sub_user_id = in_user_id sub,
        sub_source = in_source sub, sub_message = in_message sub, sub_urls = us,
        sub_verdict = v, sub_score = sc, sub_reasons = rs,
        sub_feedback = None, sub_created_at = now\<rparr>]"
  by (simp add: analyze_def Let_def split: prod.split)

lemma counters_ok_analyze:
  assumes "\<forall>u \<in> set (users d). counters_ok u"
  shows "\<forall>u \<in> set (users (snd (analyze e now sub d))). counters_ok u"
  using assms by (auto simp add: analyze_users update_user_def counters_ok_def)

lemma reconcile_bounds:
  "0 \<le> fst (reconcile fb v)" "0 \<le> snd (reconcile fb v)" "fst (reconcile fb v) + snd (reconcile fb v) \<le> 1"
  by (simp_all add: reconcile_def)

lemma counters_ok_feedback:
  assumes "\<forall>u \<in> set (users d). counters_ok u" and "feedback sid fb d = Inr d'"
  shows "\<forall>u \<in> set (users d'). counters_ok u"
proof -
  from assms(2) obtain sub rest where sel: "select_submission sid (submissions d) = sub # rest"
    by (cases "select_submission sid (submissions d)") (auto simp add: feedback_def)
  have "users d' = update_user (apply_delta (reconcile fb (sub_verdict sub))) (sub_user_id sub) (users d)"
    using assms(2) feedback_users [OF sel, of fb] by auto
  then show ?thesis
    using assms(1) reconcile_bounds [of fb "sub_verdict sub"]
    by (auto simp add: update_user_def counters_ok_def apply_delta_def)
qed

lemma counters_ok_run: "\<forall>u \<in> set (users (run reqs)). counters_ok u"
proof (induction reqs rule: rev_induct)
  case Nil
  then show ?case by (simp add: run_def empty_db_def)
next
  case (snoc r reqs)
  show ?case
  proof (cases r)
    case (Analyze e now sub)
    then show ?thesis
      using counters_ok_analyze [OF snoc] by (simp add: run_snoc)
  next
    case (Feedback sid fb)
    then show ?thesis
      using counters_ok_feedback [OF snoc] snoc
      by (cases "feedback sid fb (run reqs)") (simp_all add: run_snoc)
  qed
qed


subsection \<open>At most one feedback for a submission\<close>

lemma store_inv_empty: "store_inv F empty_db"
  by (simp add: store_inv_def empty_db_def)

lemma reports_of_snoc:
  "length (reports_of k (subs @ [s])) = length (reports_of k subs) + (if sub_user_id s = Some k then 1 else 0)"
  by (simp add: reports_of_def)

lemma labelled_snoc_unlabelled:
  "sub_feedback s = None \<Longrightarrow> labelled k (subs @ [s]) = labelled k subs"
  by (simp add: labelled_def)

lemma update_user_keys:
  assumes "\<And>u. user_id (f u) = user_id u"
  shows "(\<exists>u \<in> set (update_user f uid us). user_id u = Some k) = (\<exists>u \<in> set us. user_id u = Some k)"
  using assms by (induction us) (auto simp add: update_user_def)

lemma update_user_all:
  "(\<forall>u \<in> set (update_user f uid us). P u)
     = (\<forall>u \<in> set us. P (if sql_eq (user_id u) uid then f u else u))"
  by (induction us) (auto simp add: update_user_def)

lemma store_inv_analyze:
  assumes "store_inv F d"
  shows "store_inv F (snd (analyze e now sub d))"
proof -
  obtain row where subs: "submissions (snd (analyze e now sub d)) = submissions d @ [row]"
    and row: "sub_user_id row = in_user_id sub" "sub_feedback row = None"
    using analyze_submissions [of e now sub d] by auto
  let ?new = "\<lparr>user_id = in_user_id sub, display_name = in_user_id sub,
                 total_reports = 1, correct_reports = 0, false_positives = 0\<rparr>"
  from assms have a: "\<forall>s \<in> set (submissions d). sub_feedback s \<noteq> None \<longrightarrow> sub_id s \<in> F"
    and b: "\<forall>s \<in> set (submissions d). \<forall>k. sub_user_id s = Some k \<longrightarrow>
            (\<exists>u \<in> set (users d). user_id u = Some k)"
    and c: "\<forall>u \<in> set (users d).
            case user_id u of
              None \<Rightarrow> correct_reports u + false_positives u \<le> total_reports u
            | Some k \<Rightarrow>
                total_reports u = int (length (reports_of k (submissions d)))
                \<and> correct_reports u + false_positives u
                    \<le> int (length (labelled k (submissions d)))"
    by (simp_all add: store_inv_def)
  show ?thesis
  proof (cases "select_user (in_user_id sub) (users d) = []")
    case True
    then have us: "users (snd (analyze e now sub d)) = users d @ [?new]"
      by (simp add: analyze_users)
    have none: "\<forall>u \<in> set (users d). user_id u \<noteq> Some k" if "in_user_id sub = Some k" for k
      using True that by (auto simp add: select_user_def filter_empty_conv)
    have nosub: "reports_of k (submissions d) = []" if "in_user_id sub = Some k" for k
      using none [OF that] b by (auto simp add: reports_of_def filter_empty_conv)
    show ?thesis
      unfolding store_inv_def subs us
      using a b c row none nosub
      by (auto simp add: reports_of_snoc labelled_snoc_unlabelled split: option.splits)
  next
    case False
    then obtain k where k: "in_user_id sub = Some k"
      by (cases "in_user_id sub") (simp_all add: select_user_def)
    let ?f = "\<lambda>u. u\<lparr>total_reports := total_reports u + 1\<rparr>"
    from False have us: "users (snd (analyze e now sub d)) = update_user ?f (Some k) (users d)"
      by (simp add: analyze_users k)
    from False obtain u0 where u0: "u0 \<in> set (users d)" "user_id u0 = Some k"
      by (auto simp add: select_user_def filter_empty_conv k)
    have keys: "(\<exists>u \<in> set (update_user ?f (Some k) (users d)). user_id u = Some k')
        = (\<exists>u \<in> set (users d). user_id u = Some k')" for k'
      by (rule update_user_keys) simp
    have a': "\<forall>s \<in> set (submissions d @ [row]). sub_feedback s \<noteq> None \<longrightarrow> sub_id s \<in> F"
      using a row by auto
    have b': "\<forall>s \<in> set (submissions d @ [row]). \<forall>k'. sub_user_id s = Some k' \<longrightarrow>
            (\<exists>u \<in> set (update_user ?f (Some k) (users d)). user_id u = Some k')"
      unfolding keys using b row k u0 by auto
    have c': "\<forall>u \<in> set (update_user ?f (Some k) (users d)).
            case user_id u of
              None \<Rightarrow> correct_reports u + false_positives u \<le> total_reports u
            | Some k' \<Rightarrow>
                total_reports u = int (length (reports_of k' (submissions d @ [row])))
                \<and> correct_reports u + false_positives u
                    \<le> int (length (labelled k' (submissions d @ [row])))"
      unfolding update_user_all using c row k
      by (auto simp add: reports_of_snoc labelled_snoc_unlabelled split: option.splits)
    from a' b' c' show ?thesis
      unfolding store_inv_def subs us by blast
  qed
qed


lemma set_feedback_members:
  assumes "s' \<in> set (set_feedback sid fb subs)"
  shows "\<exists>s \<in> set subs. sub_user_id s' = sub_user_id s \<and> sub_id s' = sub_id s
           \<and> (sub_feedback s' = sub_feedback s \<or> sub_id s = sid)"
  using assms by (auto simp add: set_feedback_def)

lemma reports_of_set_feedback:
  "length (reports_of k (set_feedback sid fb subs)) = length (reports_of k subs)"
  by (induction subs) (simp_all add: reports_of_def set_feedback_def)

lemma labelled_set_feedback_mono:
  "length (labelled k subs) \<le> length (labelled k (set_feedback sid fb subs))"
  by (induction subs) (auto simp add: labelled_def set_feedback_def)

lemma labelled_set_feedback_grows:
  assumes "s \<in> set subs" and "sub_id s = sid" and "sub_feedback s = None"
    and "sub_user_id s = Some k"
  shows "length (labelled k subs) + 1 \<le> length (labelled k (set_feedback sid fb subs))"
  using assms
proof (induction subs)
  case Nil
  then show ?case by simp
next
  case (Cons x subs)
  show ?case
  proof (cases "x = s")
    case True
    have "length (labelled k subs) \<le> length (labelled k (set_feedback sid fb subs))"
      by (rule labelled_set_feedback_mono)
    then show ?thesis
      using True Cons.prems by (auto simp add: labelled_def set_feedback_def)
  next
    case False
    then have "s \<in> set subs"
      using Cons.prems by simp
    from Cons.IH [OF this Cons.prems(2-4)] show ?thesis
      by (auto simp add: labelled_def set_feedback_def)
  qed
qed

lemma store_inv_feedback:
  assumes "store_inv F d" and "sid \<notin> F" and "feedback sid fb d = Inr d'"
  shows "store_inv (insert sid F) d'"
proof -
  from assms(3) obtain sub rest where sel: "select_submission sid (submissions d) = sub # rest"
    by (cases "select_submission sid (submissions d)") (auto simp add: feedback_def)
  then have "sub \<in> set (select_submission sid (submissions d))"
    by simp
  then have sub: "sub \<in> set (submissions d)" "sub_id sub = sid"
    by (simp_all add: select_submission_def)
  from assms(1) have a: "\<forall>s \<in> set (submissions d). sub_feedback s \<noteq> None \<longrightarrow> sub_id s \<in> F"
    and b: "\<forall>s \<in> set (submissions d). \<forall>k. sub_user_id s = Some k \<longrightarrow>
            (\<exists>u \<in> set (users d). user_id u = Some k)"
    and c: "\<forall>u \<in> set (users d).
            case user_id u of
              None \<Rightarrow> correct_reports u + false_positives u \<le> total_reports u
            | Some k \<Rightarrow>
                total_reports u = int (length (reports_of k (submissions d)))
                \<and> correct_reports u + false_positives u
                    \<le> int (length (labelled k (submissions d)))"
    by (simp_all add: store_inv_def)
  have unl: "sub_feedback sub = None"
    using a sub assms(2) by auto
  let ?dl = "reconcile fb (sub_verdict sub)"
  let ?subs = "set_feedback sid fb (submissions d)"
  let ?us = "update_user (apply_delta ?dl) (sub_user_id sub) (users d)"
  have d': "submissions d' = ?subs" "users d' = ?us"
    using assms(3) feedback_users [OF sel, of fb] by auto
  have keys: "(\<exists>u \<in> set ?us. user_id u = Some k) = (\<exists>u \<in> set (users d). user_id u = Some k)" for k
    by (rule update_user_keys) simp
  have a': "\<forall>s \<in> set ?subs. sub_feedback s \<noteq> None \<longrightarrow> sub_id s \<in> insert sid F"
  proof (intro ballI impI)
    fix s' assume "s' \<in> set ?subs" and l: "sub_feedback s' \<noteq> None"
    then obtain s where s: "s \<in> set (submissions d)" "sub_id s' = sub_id s"
        "sub_feedback s' = sub_feedback s \<or> sub_id s = sid"
      using set_feedback_members by blast
    then show "sub_id s' \<in> insert sid F"
      using a l by auto
  qed
  have b': "\<forall>s \<in> set ?subs. \<forall>k. sub_user_id s = Some k \<longrightarrow> (\<exists>u \<in> set ?us. user_id u = Some k)"
    unfolding keys
  proof (intro ballI allI impI)
    fix s' k assume "s' \<in> set ?subs" and k: "sub_user_id s' = Some k"
    then obtain s where "s \<in> set (submissions d)" "sub_user_id s' = sub_user_id s"
      using set_feedback_members by blast
    then have "s \<in> set (submissions d)" "sub_user_id s = Some k"
      using k by simp_all
    then show "\<exists>u \<in> set (users d). user_id u = Some k"
      using b by blast
  qed
  have grow: "int (length (labelled k (submissions d))) + 1 \<le> int (length (labelled k ?subs))"
    if "sub_user_id sub = Some k" for k
    using labelled_set_feedback_grows [OF sub(1) sub(2) unl that, of fb] by linarith
  have mono: "int (length (labelled k (submissions d))) \<le> int (length (labelled k ?subs))" for k
    using labelled_set_feedback_mono [of k "submissions d" sid fb] by linarith
  have c': "\<forall>u \<in> set ?us.
            case user_id u of
              None \<Rightarrow> correct_reports u + false_positives u \<le> total_reports u
            | Some k \<Rightarrow>
                total_reports u = int (length (reports_of k ?subs))
                \<and> correct_reports u + false_positives u \<le> int (length (labelled k ?subs))"
    unfolding update_user_all
  proof (intro ballI)
    fix u assume u: "u \<in> set (users d)"
    show "case user_id (if sql_eq (user_id u) (sub_user_id sub) then apply_delta ?dl u else u) of
              None \<Rightarrow> correct_reports (if sql_eq (user_id u) (sub_user_id sub) then apply_delta ?dl u else u)
                 + false_positives (if sql_eq (user_id u) (sub_user_id sub) then apply_delta ?dl u else u)
                 \<le> total_reports (if sql_eq (user_id u) (sub_user_id sub) then apply_delta ?dl u else u)
            | Some k \<Rightarrow>
                total_reports (if sql_eq (user_id u) (sub_user_id sub) then apply_delta ?dl u else u)
                   = int (length (reports_of k ?subs))
                \<and> correct_reports (if sql_eq (user_id u) (sub_user_id sub) then apply_delta ?dl u else u)
                   + false_positives (if sql_eq (user_id u) (sub_user_id sub) then apply_delta ?dl u else u)
                    \<le> int (length (labelled k ?subs))"
    proof (cases "user_id u")
      case None
      then show ?thesis
        using c u by (auto simp add: sql_eq_def)
    next
      case (Some k)
      from c u Some have cu: "total_reports u = int (length (reports_of k (submissions d)))"
          "correct_reports u + false_positives u \<le> int (length (labelled k (submissions d)))"
        by auto
      show ?thesis
      proof (cases "sub_user_id sub = Some k")
        case True
        then show ?thesis
          using Some cu grow [OF True] reconcile_bounds(3) [of fb "sub_verdict sub"]
          by (simp add: apply_delta_def reports_of_set_feedback)
      next
        case False
        then have "\<not> sql_eq (user_id u) (sub_user_id sub)"
          using Some by (cases "sub_user_id sub") (simp_all add: sql_eq_def)
        then show ?thesis
          using Some cu mono [of k] by (simp add: reports_of_set_feedback)
      qed
    qed
  qed
  from a' b' c' show ?thesis
    unfolding store_inv_def d' by blast
qed

lemma labelled_le_reports: "length (labelled k subs) \<le> length (reports_of k subs)"
  by (induction subs) (simp_all add: labelled_def reports_of_def)

lemma store_inv_run:
  assumes "distinct (accepted_feedback_ids empty_db reqs)"
  shows "store_inv (set (accepted_feedback_ids empty_db reqs)) (run reqs)"
  using assms
proof (induction reqs rule: rev_induct)
  case Nil
  then show ?case by (simp add: run_def store_inv_empty)
next
  case (snoc r reqs)
  have ids: "accepted_feedback_ids empty_db (reqs @ [r])
      = accepted_feedback_ids empty_db reqs @ accepted_id (run reqs) r"
    by (simp add: accepted_feedback_ids_snoc run_def)
  from snoc.prems have dist: "distinct (accepted_feedback_ids empty_db reqs)"
    by (simp add: ids)
  note IH = snoc.IH [OF dist]
  show ?case
  proof (cases r)
    case (Analyze e now sub)
    then have "accepted_id (run reqs) r = []"
      by (simp add: accepted_id_def)
    then have F: "set (accepted_feedback_ids empty_db (reqs @ [r]))
        = set (accepted_feedback_ids empty_db reqs)"
      by (simp add: ids)
    have d: "run (reqs @ [r]) = snd (analyze e now sub (run reqs))"
      by (simp add: run_snoc Analyze)
    show ?thesis
      unfolding F d by (rule store_inv_analyze [OF IH])
  next
    case (Feedback sid fb)
    show ?thesis
    proof (cases "feedback sid fb (run reqs)")
      case (Inl err)
      then have "accepted_id (run reqs) r = []"
        using Feedback by (simp add: accepted_id_def)
      then have F: "set (accepted_feedback_ids empty_db (reqs @ [r]))
          = set (accepted_feedback_ids empty_db reqs)"
        by (simp add: ids)
      have d: "run (reqs @ [r]) = run reqs"
        by (simp add: run_snoc Feedback Inl)
      show ?thesis
        unfolding F d by (rule IH)
    next
      case (Inr d')
      then have acc: "accepted_id (run reqs) r = [sid]"
        using Feedback by (simp add: accepted_id_def)
      with snoc.prems have fresh: "sid \<notin> set (accepted_feedback_ids empty_db reqs)"
        by (simp add: ids)
      have F: "set (accepted_feedback_ids empty_db (reqs @ [r]))
          = insert sid (set (accepted_feedback_ids empty_db reqs))"
        by (simp add: ids acc)
      have d: "run (reqs @ [r]) = d'"
        by (simp add: run_snoc Feedback Inr)
      show ?thesis
        unfolding F d by (rule store_inv_feedback [OF IH fresh Inr])
    qed
  qed
qed

lemma store_inv_total_ge:
  assumes "store_inv F d" and "u \<in> set (users d)"
  shows "correct_reports u + false_positives u \<le> total_reports u"
proof (cases "user_id u")
  case None
  then show ?thesis
    using assms by (auto simp add: store_inv_def)
next
  case (Some k)
  then have "total_reports u = int (length (reports_of k (submissions d)))"
      "correct_reports u + false_positives u \<le> int (length (labelled k (submissions d)))"
    using assms by (auto simp add: store_inv_def)
  then show ?thesis
    using labelled_le_reports [of k "submissions d"] by linarith
qed


subsection \<open>The counters of reachable stores\<close>

lemma run_one_report:
  "run [Analyze offline_env ''2024-01-01T00:00:00'' plain_submission] = one_report_db"
  by code_simp

lemma feedback_safe_first:
  "feedback 1 ''safe'' \<lparr>submissions = [stored_plain], users = [alice 1 0 0]\<rparr>
     = Inr \<lparr>submissions = [stored_plain\<lparr>sub_feedback := Some ''safe''\<rparr>], users = [alice 1 1 0]\<rparr>"
  by (simp add: feedback_def select_submission_def stored_plain_def alice_def update_user_def)

lemma feedback_safe_again:
  "feedback 1 ''safe'' \<lparr>submissions = [stored_plain\<lparr>sub_feedback := Some ''safe''\<rparr>], users = [alice 1 1 0]\<rparr>
     = Inr \<lparr>submissions = [stored_plain\<lparr>sub_feedback := Some ''safe''\<rparr>], users = [alice 1 2 0]\<rparr>"
  by (simp add: feedback_def select_submission_def stored_plain_def alice_def update_user_def)

text \<open>
  C2, as the specification states it, fails: feedback may be given twice for the same
  submission, and each call counts. After one report marked \<open>safe\<close> twice the user has
  one report in total and two correct ones.
\<close>

theorem repeated_feedback_counterexample:
  "users (run [Analyze offline_env ''2024-01-01T00:00:00'' plain_submission,
               Feedback 1 ''safe'', Feedback 1 ''safe'']) = [alice 1 2 0]
   \<and> \<not> correct_reports (alice 1 2 0) \<le> total_reports (alice 1 2 0)"
proof -
  have "run [Analyze offline_env ''2024-01-01T00:00:00'' plain_submission,
             Feedback 1 ''safe'', Feedback 1 ''safe'']
      = handle (handle (run [Analyze offline_env ''2024-01-01T00:00:00'' plain_submission])
          (Feedback 1 ''safe'')) (Feedback 1 ''safe'')"
    by (simp add: run_def)
  also have "\<dots> = \<lparr>submissions = [stored_plain\<lparr>sub_feedback := Some ''safe''\<rparr>], users = [alice 1 2 0]\<rparr>"
    by (simp add: run_one_report one_report_db_def feedback_safe_first feedback_safe_again)
  finally show ?thesis
    by (simp add: alice_def)
qed

text \<open>
  C2, amended: in every store reachable from the empty one by analyze and feedback
  requests each user has \<open>total_reports \<ge> 1\<close>, \<open>correct_reports \<ge> 0\<close> and
  \<open>false_positives \<ge> 0\<close>; as long as no submission has been given feedback more than
  once (the feedback requests that were accepted, not those answered with 404, went to
  different submissions), \<open>total_reports \<ge> correct_reports\<close> holds too (even with the
  false positives added); and a user who is not in the table yet is created by the
  submission with \<open>total_reports = 1\<close> and the other counters 0.
\<close>

theorem counters_of_reachable_users:
  "(\<forall>u \<in> set (users (run reqs)).
       1 \<le> total_reports u \<and> 0 \<le> correct_reports u \<and> 0 \<le> false_positives u)
   \<and> (distinct (accepted_feedback_ids empty_db reqs) \<longrightarrow>
        (\<forall>u \<in> set (users (run reqs)).
           correct_reports u \<le> total_reports u
           \<and> correct_reports u + false_positives u \<le> total_reports u))
   \<and> (select_user (in_user_id sub) (users d) = [] \<longrightarrow>
        users (snd (analyze e now sub d))
          = users d @ [\<lparr>user_id = in_user_id sub, display_name = in_user_id sub,
                         total_reports = 1, correct_reports = 0, false_positives = 0\<rparr>])"
proof (intro conjI impI ballI)
  fix u assume "u \<in> set (users (run reqs))"
  then have "counters_ok u"
    using counters_ok_run [of reqs] by blast
  then show "1 \<le> total_reports u" "0 \<le> correct_reports u" "0 \<le> false_positives u"
    by (simp_all add: counters_ok_def)
next
  fix u assume dist: "distinct (accepted_feedback_ids empty_db reqs)"
    and u: "u \<in> set (users (run reqs))"
  from store_inv_total_ge [OF store_inv_run [OF dist] u]
  show sum: "correct_reports u + false_positives u \<le> total_reports u" .
  have "counters_ok u"
    using counters_ok_run [of reqs] u by blast
  then show "correct_reports u \<le> total_reports u"
    using sum by (simp add: counters_ok_def)
next
  assume "select_user (in_user_id sub) (users d) = []"
  then show "users (snd (analyze e now sub d))
          = users d @ [\<lparr>user_id = in_user_id sub, display_name = in_user_id sub,
                         total_reports = 1, correct_reports = 0, false_positives = 0\<rparr>]"
    by (simp add: analyze_users)
qed

lemma feedback_unknown: "feedback 1 ''safe'' empty_db = Inl (HTTPException 404 ''submission not found'')"
  by (simp add: feedback_def select_submission_def empty_db_def)

lemma handle_one_report:
  "handle empty_db (Analyze offline_env ''2024-01-01T00:00:00'' plain_submission) = one_report_db"
  using run_one_report by (simp add: run_def)

theorem counters_of_reachable_users_witness:
  "accepted_feedback_ids empty_db
     [Feedback 1 ''safe'', Analyze offline_env ''2024-01-01T00:00:00'' plain_submission,
      Feedback 1 ''safe''] = [1]
   \<and> users (run [Feedback 1 ''safe'',
                  Analyze offline_env ''2024-01-01T00:00:00'' plain_submission,
                  Feedback 1 ''safe'']) = [alice 1 1 0]
   \<and> correct_reports (alice 1 1 0) \<le> total_reports (alice 1 1 0)
   \<and> 1 \<le> total_reports (alice 1 1 0)
   \<and> select_user (in_user_id plain_submission) (users empty_db) = []
   \<and> users (snd (analyze offline_env ''2024-01-01T00:00:00'' plain_submission empty_db))
       = [alice 1 0 0]"
proof -
  have f1: "feedback 1 ''safe'' one_report_db
      = Inr \<lparr>submissions = [stored_plain\<lparr>sub_feedback := Some ''safe''\<rparr>], users = [alice 1 1 0]\<rparr>"
    using feedback_safe_first by (simp add: one_report_db_def)
  have h1: "handle empty_db (Feedback 1 ''safe'') = empty_db"
    by (simp add: feedback_unknown)
  have h3: "handle one_report_db (Feedback 1 ''safe'')
      = \<lparr>submissions = [stored_plain\<lparr>sub_feedback := Some ''safe''\<rparr>], users = [alice 1 1 0]\<rparr>"
    by (simp add: f1)
  have a1: "accepted_id empty_db (Feedback 1 ''safe'') = []"
    by (simp add: accepted_id_def feedback_unknown)
  have a2: "accepted_id empty_db (Analyze offline_env ''2024-01-01T00:00:00'' plain_submission) = []"
    by (simp add: accepted_id_def)
  have a3: "accepted_id one_report_db (Feedback 1 ''safe'') = [1]"
    by (simp add: accepted_id_def f1)
  have ids: "accepted_feedback_ids empty_db
     [Feedback 1 ''safe'', Analyze offline_env ''2024-01-01T00:00:00'' plain_submission,
      Feedback 1 ''safe''] = [1]"
    by (simp add: h1 handle_one_report a1 a2 a3 del: handle.simps)
  have u: "users (run [Feedback 1 ''safe'',
                  Analyze offline_env ''2024-01-01T00:00:00'' plain_submission,
                  Feedback 1 ''safe'']) = [alice 1 1 0]"
    by (simp add: run_def h1 handle_one_report h3 del: handle.simps)
  have a: "users (snd (analyze offline_env ''2024-01-01T00:00:00'' plain_submission empty_db))
       = [alice 1 0 0]"
    using handle_one_report by (simp add: one_report_db_def)
  show ?thesis
    using counters_of_reachable_users
      [of "[Feedback 1 ''safe'', Analyze offline_env ''2024-01-01T00:00:00'' plain_submission,
            Feedback 1 ''safe'']"
          plain_submission empty_db offline_env "''2024-01-01T00:00:00''"] ids u a
    by (simp add: alice_def empty_db_def select_user_def plain_submission_def)
qed

section \<open>The list of reasons\<close>

lemma snd_rule_https: "snd (rule_https url a) = snd a @ https_reason url"
  by (simp add: rule_https_def https_reason_def)

lemma snd_rule_ip: "snd (rule_ip url a) = snd a @ ip_reason url"
  by (simp add: rule_ip_def ip_reason_def)

lemma snd_rule_length: "snd (rule_length e url a) = snd a @ length_reason e url"
  by (simp add: rule_length_def length_reason_def Let_def)

lemma snd_rule_brand: "snd (rule_brand e url a) = snd a @ brand_reason e url"
  by (simp add: rule_brand_def brand_reason_def split: option.split)

lemma snd_rule_fetch: "snd (rule_fetch e n url a) = snd a @ fetch_reason (requests_get e n url)"
  by (simp add: rule_fetch_def fetch_reason_def split: http_result.split)

lemma rule_ssl_probe:
  "rule_ssl e n url a =
     (if probe_failed (requests_get e n (''https://'' @ probe_domain e url))
      then (fadd (fst a) (fl (15 / 100)), snd a @ [''ssl certificate check failed''])
      else a)"
  by (simp add: rule_ssl_def check_ssl_certificate_def probe_failed_def Let_def
      split: http_result.split)

lemma snd_rule_ssl:
  "snd (rule_ssl e n url a)
     = snd a @ ssl_reason (requests_get e n (''https://'' @ probe_domain e url))"
  by (simp add: rule_ssl_probe ssl_reason_def)

lemma snd_analyze_url: "snd (analyze_url e n url a) = snd a @ url_reasons e n url"
  by (simp add: analyze_url_def url_reasons_def snd_rule_ssl snd_rule_fetch snd_rule_brand
      snd_rule_length snd_rule_ip snd_rule_https)

lemma snd_url_loop:
  "snd (url_loop e n urls a)
     = snd a @ concat (map (\<lambda>i. url_reasons e (n + 2 * i) (urls ! i)) [0..<length urls])"
proof (induction urls arbitrary: n a)
  case Nil
  then show ?case by simp
next
  case (Cons url urls)
  have "map (\<lambda>i. url_reasons e (n + 2 * i) ((url # urls) ! i)) [0..<length (url # urls)]
      = url_reasons e n url # map (\<lambda>i. url_reasons e (n + 2 + 2 * i) (urls ! i)) [0..<length urls]"
    by (simp add: upt_conv_Cons map_Suc_upt [symmetric] del: upt_Suc)
  then show ?case
    by (simp add: Cons.IH snd_analyze_url)
qed

lemma snd_keyword_rule: "snd (keyword_rule m) = keyword_reason m"
  by (simp add: keyword_rule_def keyword_reason_def Let_def)

lemma reasons_analyze_payload:
  "snd (snd (analyze_payload e m urls))
     = keyword_reason m @ concat (map (\<lambda>i. url_reasons e (2 * i) (urls ! i)) [0..<length urls])"
  using snd_url_loop [of e 0 urls "keyword_rule m"]
  by (simp add: analyze_payload_def Let_def snd_keyword_rule)

text \<open>
  C8: the reasons are listed in the order the rules are evaluated: the keyword reason
  first, then for each URL in input order the reasons of the rules HTTPS, raw IP, domain
  length, brand mimicry, redirect or fetch failure, certificate. Of the redirect and the
  fetch-failure reason at most one appears for a URL: the second when the request
  raises, the first when it answers after three or more redirects. The certificate rule
  is evaluated for every URL, whatever the fetch did, on the registered domain (the
  bare domain when there is none).
\<close>

theorem reasons_in_rule_order:
  "snd (snd (analyze_payload e m urls))
     = keyword_reason m @ concat (map (\<lambda>i. url_reasons e (2 * i) (urls ! i)) [0..<length urls])
   \<and> url_reasons e n url
     = https_reason url @ ip_reason url @ length_reason e url @ brand_reason e url
       @ fetch_reason (requests_get e n url)
       @ ssl_reason (requests_get e (n + 1) (''https://'' @ probe_domain e url))
   \<and> fetch_reason Raised = [''could not fetch URL (network or blocked)'']
   \<and> fetch_reason (Response st h)
     = (if 3 \<le> h then [str_nat h @ '' redirects (suspicious)''] else [])
   \<and> length (fetch_reason r) \<le> 1
   \<and> probe_domain e url
     = (if registered_domain (tld_extract e url) = [] then domain (tld_extract e url)
        else registered_domain (tld_extract e url))"
  by (simp add: reasons_analyze_payload url_reasons_def fetch_reason_def probe_domain_def Let_def
      split: http_result.split)

subsection \<open>The certificate rule\<close>

lemma count_keyword_reason: "count_list (keyword_reason m) ''ssl certificate check failed'' = 0"
  by (simp add: keyword_reason_def)

lemma count_fetch_reason: "count_list (fetch_reason r) ''ssl certificate check failed'' = 0"
  by (simp add: fetch_reason_def split: http_result.split)

lemma count_brand_reason: "count_list (brand_reason e url) ''ssl certificate check failed'' = 0"
  by (simp add: brand_reason_def simple_typosquat_check_def Let_def split: option.split)

lemma count_url_reasons:
  "count_list (url_reasons e n url) ''ssl certificate check failed''
     = (if probe_failed (requests_get e (n + 1) (''https://'' @ probe_domain e url)) then 1 else 0)"
  by (simp add: url_reasons_def count_fetch_reason count_brand_reason https_reason_def
      ip_reason_def length_reason_def ssl_reason_def)

lemma count_list_concat_map:
  "count_list (concat (map f xs)) a = length (filter (\<lambda>x. count_list (f x) a = 1) xs)"
  if "\<And>x. count_list (f x) a \<le> 1"
  using that
proof (induction xs)
  case Nil
  then show ?case by simp
next
  case (Cons x xs)
  have "count_list (f x) a = 0 \<or> count_list (f x) a = 1"
    using Cons.prems [of x] by linarith
  then show ?case
    using Cons by auto
qed

text \<open>
  C10: the reason \<open>ssl certificate check failed\<close> is added, with weight 0.15, exactly
  when the request to \<open>https://\<close> followed by the registered domain (or the bare domain
  when there is no registered domain) raises or answers with a status code of 500 or
  more: the reason occurs once for each URL whose probe fails so, and a status 503
  counts as a failure although the TLS handshake has succeeded.
\<close>

theorem ssl_reason_iff_probe_fails:
  "count_list (snd (snd (analyze_payload e m urls))) ''ssl certificate check failed''
     = length (filter (\<lambda>i. probe_failed (requests_get e (2 * i + 1)
                              (''https://'' @ probe_domain e (urls ! i)))) [0..<length urls])
   \<and> rule_ssl e n url a
     = (if probe_failed (requests_get e n (''https://'' @ probe_domain e url))
        then (fadd (fst a) (fl (15 / 100)), snd a @ [''ssl certificate check failed''])
        else a)
   \<and> probe_failed Raised
   \<and> probe_failed (Response st h) = (500 \<le> st)
   \<and> probe_failed (Response 503 h)
   \<and> probe_domain e url
     = (if registered_domain (tld_extract e url) = [] then domain (tld_extract e url)
        else registered_domain (tld_extract e url))"
proof -
  have "count_list (snd (snd (analyze_payload e m urls))) ''ssl certificate check failed''
     = length (filter (\<lambda>i. probe_failed (requests_get e (2 * i + 1)
                              (''https://'' @ probe_domain e (urls ! i)))) [0..<length urls])"
    by (simp add: reasons_analyze_payload count_keyword_reason count_list_concat_map
        count_url_reasons)
  then show ?thesis
    by (simp add: rule_ssl_probe probe_failed_def probe_domain_def Let_def)
qed

section \<open>The awareness score\<close>

text \<open>
  C3 fails on the code: the percentage is computed in floating point, and for 29
  correct reports out of 50 the product \<open>(29 / 50) * 100\<close> is the double just below 58,
  which \<open>int\<close> truncates to 57. The claim's formula gives 58.
\<close>

theorem awareness_truncation_off_by_one:
  "awareness_score (alice 50 29 0) = 57
   \<and> max 0 (\<lfloor>(of_int 29 / of_int 50 :: rat) * 100\<rfloor> - 0 * 2) = (58::int)"
  by code_simp

lemma awareness_example: "awareness_score (alice 10 8 1) = 78"
  by code_simp

lemma awareness_nonneg: "0 \<le> awareness_score r"
  by (simp add: awareness_score_def Let_def)

lemma awareness_no_reports: "total_reports r = 0 \<Longrightarrow> awareness_score r = 0"
  by (simp add: awareness_score_def Let_def)

section \<open>The URLs of a submission\<close>

lemma extracted_urls_distinct:
  "py_set_order (set_iteration e) \<Longrightarrow> distinct (extract_urls_from_text e text)"
  by (simp add: extract_urls_from_text_def py_set_order_def)

lemma analyze_explicit_urls:
  assumes "in_urls sub = Some us" and "us \<noteq> []"
  shows "out_urls (fst (analyze e now sub d)) = us"
    and "map sub_urls (submissions (snd (analyze e now sub d)))
          = map sub_urls (submissions d) @ [us]"
  using assms by (simp_all add: analyze_def Let_def split: prod.split)

text \<open>
  C9 fails on the code: URLs given in the request are analysed and stored as they are,
  duplicates included. Only the URLs extracted from the message pass through a set.
\<close>

theorem explicit_urls_keep_duplicates:
  "out_urls (fst (analyze offline_env ''2024-01-01T00:00:00'' dup_submission empty_db))
     = [''http://a.com'', ''http://a.com'']
   \<and> \<not> distinct (out_urls (fst (analyze offline_env ''2024-01-01T00:00:00'' dup_submission empty_db)))
   \<and> map sub_urls (submissions (snd (analyze offline_env ''2024-01-01T00:00:00'' dup_submission empty_db)))
     = [[''http://a.com'', ''http://a.com'']]"
proof -
  have u: "in_urls dup_submission = Some [''http://a.com'', ''http://a.com'']"
    by (simp add: dup_submission_def)
  show ?thesis
    using analyze_explicit_urls [OF u, of offline_env "''2024-01-01T00:00:00''" empty_db]
    by (simp add: empty_db_def)
qed

section \<open>The worked example of the keyword rule\<close>

text \<open>
  C7, as the specification states it (three matches: urgent, verify, account), fails:
  the lowercased message also contains the keyword \<open>verify your\<close>.
\<close>

theorem scenario1_count_counterexample:
  "matched_keywords ''Urgent! Verify your account''
     \<noteq> [''urgent'', ''verify'', ''account'']
   \<and> kw_count ''Urgent! Verify your account'' \<noteq> 3"
  by code_simp

text \<open>
  C7, amended: for the message \<open>Urgent! Verify your account\<close> and no URLs the keyword
  matches are urgent, verify, verify your and account (count 4), the keyword
  contribution is \<open>min(0.8, 0.4) = 0.4\<close>, the single reason is
  \<open>suspicious keywords (4)\<close>, the score is 0.40 and the verdict is suspicious.
\<close>

theorem scenario1_keywords:
  "matched_keywords ''Urgent! Verify your account''
     = [''urgent'', ''verify'', ''verify your'', ''account'']
   \<and> kw_count ''Urgent! Verify your account'' = 4
   \<and> min (fmul (fl (2 / 10)) (fl 4)) (fl (4 / 10)) = fl (4 / 10)
   \<and> keyword_rule ''Urgent! Verify your account'' = (fl (4 / 10), [''suspicious keywords (4)''])
   \<and> analyze_payload e ''Urgent! Verify your account'' []
       = (''suspicious'', fl (40 / 100), [''suspicious keywords (4)''])"
  by code_simp

end
